theory Spec2Isabelle
  imports Main "HOL-Library.Sublist"
begin

section \<open>Values\<close>

text \<open>
  The loader works on parsed JSON. A value is one of the JSON shapes plus the two
  run-time shapes an assignment of the loader can store into a record: \<open>undefined\<close>
  (the \<open>Id\<close> of a lookup result that has none) and a member that every plain object
  inherits (see \<open>inherited\<close> below). An object is the list of its own enumerable
  properties, in enumeration order, with distinct keys. A stored record is an object
  (\<^verbatim>\<open>fs.readJSONFile<object[]>\<close>), so a collection is a list of property lists.

  Two kinds of values are narrower here than in JavaScript. A number is an integer
  printed with all its digits, which is how JavaScript prints an integer below
  \<open>10\<^sup>2\<^sup>1\<close> that a double holds exactly; fractions, and integers a double
  rounds, are not values of the model. A string is a list of 8-bit code units: the
  strings of the model are the JavaScript strings whose code units are all below 256.
\<close>

datatype json =
    JUndefined
  | JNull
  | JBool bool
  | JNum int
  | JStr string
  | JArr "json list"
  | JObj "(string \<times> json) list"
  | JNative string

type_synonym jrecord = "(string \<times> json) list"

text \<open>\<^verbatim>\<open>record[field]\<close> on a record: the property's value, \<open>undefined\<close> when absent.\<close>

definition get_prop :: "jrecord \<Rightarrow> string \<Rightarrow> json" where
  "get_prop r k = (case map_of r k of Some v \<Rightarrow> v | None \<Rightarrow> JUndefined)"

text \<open>\<^verbatim>\<open>delete r['id']\<close>.\<close>

definition delete_prop :: "string \<Rightarrow> jrecord \<Rightarrow> jrecord" where
  "delete_prop k r = filter (\<lambda>(k', v). k' \<noteq> k) r"

subsection \<open>Conversion to text\<close>

fun show_nat :: "nat \<Rightarrow> string" where
  "show_nat n =
     (if n < 10 then [char_of (48 + n)]
      else show_nat (n div 10) @ [char_of (48 + n mod 10)])"

declare show_nat.simps [simp del]

definition show_int :: "int \<Rightarrow> string" where
  "show_int i = (if i < 0 then CHR ''-'' # show_nat (nat (- i)) else show_nat (nat i))"

definition join :: "string \<Rightarrow> string list \<Rightarrow> string" where
  "join sep xs = (case xs of [] \<Rightarrow> [] | y # ys \<Rightarrow> y @ concat (map (\<lambda>s. sep @ s) ys))"

text \<open>
  The text a template literal \<^verbatim>\<open>${v}\<close> or a property key gives for a value
  (JavaScript's \<open>ToString\<close>).
\<close>

fun to_text :: "json \<Rightarrow> string" where
  "to_text JUndefined = ''undefined''"
| "to_text JNull = ''null''"
| "to_text (JBool b) = (if b then ''true'' else ''false'')"
| "to_text (JNum i) = show_int i"
| "to_text (JStr s) = s"
| "to_text (JArr xs) =
     join '','' (map (\<lambda>x. case x of JUndefined \<Rightarrow> [] | JNull \<Rightarrow> [] | _ \<Rightarrow> to_text x) xs)"
| "to_text (JObj fs) = ''[object Object]''"
| "to_text (JNative f) = ''function '' @ f @ ''() { [native code] }''"

definition dquote :: char where
  "dquote = char_of (34 :: nat)"

definition backslash :: char where
  "backslash = char_of (92 :: nat)"

definition hex_digit :: "nat \<Rightarrow> char" where
  "hex_digit d = (if d < 10 then char_of (48 + d) else char_of (87 + d))"

text \<open>How \<^verbatim>\<open>JSON.stringify\<close> writes one code unit inside a string.\<close>

definition escape_char :: "char \<Rightarrow> string" where
  "escape_char c =
     (let n = (of_char c :: nat) in
      if c = dquote then [backslash, dquote]
      else if c = backslash then [backslash, backslash]
      else if n = 8 then [backslash, CHR ''b'']
      else if n = 9 then [backslash, CHR ''t'']
      else if n = 10 then [backslash, CHR ''n'']
      else if n = 12 then [backslash, CHR ''f'']
      else if n = 13 then [backslash, CHR ''r'']
      else if n < 32 then [backslash, CHR ''u'', CHR ''0'', CHR ''0'', hex_digit (n div 16), hex_digit (n mod 16)]
      else [c])"

definition quoted :: "string \<Rightarrow> string" where
  "quoted s = dquote # concat (map escape_char s) @ [dquote]"

text \<open>Whether \<^verbatim>\<open>JSON.stringify\<close> leaves a property out (and writes \<open>null\<close> in an array).\<close>

fun omitted :: "json \<Rightarrow> bool" where
  "omitted JUndefined = True"
| "omitted (JNative f) = True"
| "omitted v = False"

text \<open>\<^verbatim>\<open>JSON.stringify(v)\<close> with no indentation, for a value that is not left out.\<close>

fun stringify :: "json \<Rightarrow> string" where
  "stringify JUndefined = ''null''"
| "stringify (JNative f) = ''null''"
| "stringify JNull = ''null''"
| "stringify (JBool b) = (if b then ''true'' else ''false'')"
| "stringify (JNum i) = show_int i"
| "stringify (JStr s) = quoted s"
| "stringify (JArr xs) = ''['' @ join '','' (map stringify xs) @ '']''"
| "stringify (JObj fs) =
     ''{'' @ join '','' (map (\<lambda>(k, v). quoted k @ '':'' @ stringify v)
                         (filter (\<lambda>(k, v). \<not> omitted v) fs)) @ ''}''"

text \<open>\<^verbatim>\<open>s.indexOf(t) >= 0\<close>: \<open>t\<close> occurs in \<open>s\<close> as a contiguous run.\<close>

definition index_of_found :: "string \<Rightarrow> string \<Rightarrow> bool" where
  "index_of_found s t = sublist t s"

section \<open>The relation graph\<close>

text \<open>
  \<^verbatim>\<open>getDataLoader\<close> builds two dictionaries from the collection names \<open>sobjects\<close> and
  the dictionary \<open>sobject2records\<close>. Both have exactly the names of \<open>sobjects\<close> as
  keys; they are functions here, and only names of \<open>sobjects\<close> are ever looked up.
\<close>

definition references :: "(string \<Rightarrow> jrecord list) \<Rightarrow> string \<Rightarrow> string \<Rightarrow> bool" where
  "references sobject2records parentSObject childSObject =
     list_ex (\<lambda>parentRecords.
        index_of_found (stringify (JArr (map JObj (sobject2records childSObject))))
          ([dquote] @ to_text (get_prop parentRecords ''id'') @ [dquote]))
       (sobject2records parentSObject)"

definition parent2childObjects ::
  "string list \<Rightarrow> (string \<Rightarrow> jrecord list) \<Rightarrow> string \<Rightarrow> string list" where
  "parent2childObjects sobjects sobject2records parentSObject =
     filter (\<lambda>childSObject. references sobject2records parentSObject childSObject)
       (filter (\<lambda>childSObject. parentSObject \<noteq> childSObject) sobjects)"

definition child2parentSObjects ::
  "string list \<Rightarrow> (string \<Rightarrow> jrecord list) \<Rightarrow> string \<Rightarrow> string list" where
  "child2parentSObjects sobjects sobject2records childSObject =
     filter (\<lambda>parentSObject.
        childSObject \<in> set (parent2childObjects sobjects sobject2records parentSObject))
       sobjects"

section \<open>The embedded-query pattern\<close>

text \<open>
  \<^verbatim>\<open>SOQL_REGEX = /SELECT\s+(.*?)\s+FROM\s+(.*?)\s+WHERE\s+(.*?)($|\s+ORDER BY\s+)/i\<close>

  The pattern is run the way a backtracking matcher runs it: every piece maps the
  rest of the input to the list of ways it can match there, in the order the matcher
  tries them, and a sequence tries the ways of its first piece in order, each followed
  by the ways of the rest. The first way found at the leftmost start position is the
  match.
\<close>

text \<open>
  \<^verbatim>\<open>\s\<close>: of the white space and the line terminators of JavaScript, those that are
  code units below 256: tab, line feed, vertical tab, form feed, carriage return,
  space, no-break space. (The others are U+1680, U+2000 to U+200A, U+2028, U+2029,
  U+202F, U+205F, U+3000 and U+FEFF.)
\<close>

definition is_space :: "char \<Rightarrow> bool" where
  "is_space c = ((of_char c :: nat) \<in> {9, 10, 11, 12, 13, 32, 160})"

text \<open>
  \<^verbatim>\<open>.\<close> matches every code unit but a line terminator. JavaScript has four: line
  feed, carriage return, U+2028 and U+2029; the first two are code units below 256.
\<close>

definition line_terminator :: "char \<Rightarrow> bool" where
  "line_terminator c = ((of_char c :: nat) \<in> {10, 13})"

text \<open>The \<^verbatim>\<open>i\<close> flag compares letters of the pattern, all ASCII, in upper case.\<close>

definition upper :: "char \<Rightarrow> char" where
  "upper c = (let n = (of_char c :: nat) in if 97 \<le> n \<and> n \<le> 122 then char_of (n - 32) else c)"

text \<open>A literal of the pattern: one way, when the input starts with it in any case.\<close>

definition lit :: "string \<Rightarrow> string \<Rightarrow> string list" where
  "lit p s =
     (if length p \<le> length s \<and> map upper (take (length p) s) = map upper p
      then [drop (length p) s] else [])"

text \<open>\<^verbatim>\<open>\s+\<close>, greedy: the rests after one or more spaces, the longest run first.\<close>

fun spaces :: "string \<Rightarrow> string list" where
  "spaces [] = []"
| "spaces (c # s) = (if is_space c then spaces s @ [s] else [])"

text \<open>\<^verbatim>\<open>(.*?)\<close>, lazy: the captured text and the rest, the shortest capture first.\<close>

fun lazy_dots :: "string \<Rightarrow> (string \<times> string) list" where
  "lazy_dots [] = [([], [])]"
| "lazy_dots (c # s) =
     ([], c # s) # (if line_terminator c then [] else map (\<lambda>(g, r). (c # g, r)) (lazy_dots s))"

text \<open>\<^verbatim>\<open>($|\s+ORDER BY\s+)\<close>: the end of the input first, then the clause.\<close>

definition soql_tail :: "string \<Rightarrow> string list" where
  "soql_tail s =
     (if s = [] then [s] else []) @
     [r. a \<leftarrow> spaces s, b \<leftarrow> lit ''ORDER BY'' a, r \<leftarrow> spaces b]"

text \<open>The ways the whole pattern matches at the start of \<open>s\<close>, as the three captures.\<close>

definition soql_at :: "string \<Rightarrow> (string \<times> string \<times> string) list" where
  "soql_at s =
     [(soqlSelect, soqlFrom, soqlWhere).
        s1 \<leftarrow> lit ''SELECT'' s, s2 \<leftarrow> spaces s1,
        (soqlSelect, s3) \<leftarrow> lazy_dots s2,
        s4 \<leftarrow> spaces s3, s5 \<leftarrow> lit ''FROM'' s4, s6 \<leftarrow> spaces s5,
        (soqlFrom, s7) \<leftarrow> lazy_dots s6,
        s8 \<leftarrow> spaces s7, s9 \<leftarrow> lit ''WHERE'' s8, s10 \<leftarrow> spaces s9,
        (soqlWhere, s11) \<leftarrow> lazy_dots s10,
        s12 \<leftarrow> soql_tail s11]"

text \<open>
  \<^verbatim>\<open>value.match(SOQL_REGEX)\<close>: the captures 1 to 3 of the first match, searching the
  start positions from the left; \<open>None\<close> is \<^verbatim>\<open>null\<close>. A match always has five
  entries, so \<^verbatim>\<open>matches.length > 3\<close> holds whenever there is one.
\<close>

fun soql_match :: "string \<Rightarrow> (string \<times> string \<times> string) option" where
  "soql_match s =
     (case soql_at s of
        m # ms \<Rightarrow> Some m
      | [] \<Rightarrow> (case s of [] \<Rightarrow> None | c # s' \<Rightarrow> soql_match s'))"

declare soql_match.simps [simp del]

section \<open>Errors\<close>

text \<open>
  The loader throws plain errors told apart by their message; an error here holds
  what its message is made of: the text of the query, the name of the collection, the
  results of the destroy. \<open>Rejected\<close> is an error a collaborator (the remote store or
  the file system) rejected a call with, passed on as it came. \<open>StackExhausted\<close> is
  the \<^verbatim>\<open>RangeError\<close> of a call stack that is full.
\<close>

record save_result =
  success :: bool
  result_id :: string

datatype error =
    LookupNotFound string
  | CreateFailed string
  | DeleteFailed string "save_result list"
  | Rejected string
  | StackExhausted

section \<open>The field resolver\<close>

text \<open>
  \<open>old2newId\<close> is a plain object used as a dictionary from old to new identifiers.
  Reading \<^verbatim>\<open>old2newId[value]\<close> gives the own property when there is one, and else
  what every plain object inherits from \<^verbatim>\<open>Object.prototype\<close>: functions, and the
  prototype itself (an object with no enumerable property) under \<^verbatim>\<open>__proto__\<close>.
\<close>

definition inherited :: "string \<Rightarrow> json option" where
  "inherited k =
     (if k = ''constructor'' then Some (JNative ''Object'')
      else if k \<in> set [''toString'', ''toLocaleString'', ''valueOf'', ''hasOwnProperty'',
                        ''isPrototypeOf'', ''propertyIsEnumerable'', ''__defineGetter__'',
                        ''__defineSetter__'', ''__lookupGetter__'', ''__lookupSetter__'']
      then Some (JNative k)
      else if k = ''__proto__'' then Some (JObj [])
      else None)"

definition lookup_id :: "(string \<rightharpoonup> string) \<Rightarrow> string \<Rightarrow> json" where
  "lookup_id old2newId value =
     (case old2newId value of
        Some newId \<Rightarrow> JStr newId
      | None \<Rightarrow> (case inherited value of Some v \<Rightarrow> v | None \<Rightarrow> JUndefined))"

text \<open>What \<^verbatim>\<open>if (v)\<close> takes for true.\<close>

fun truthy :: "json \<Rightarrow> bool" where
  "truthy JUndefined = False"
| "truthy JNull = False"
| "truthy (JBool b) = b"
| "truthy (JNum i) = (i \<noteq> 0)"
| "truthy (JStr s) = (s \<noteq> [])"
| "truthy v = True"

text \<open>
  \<open>finder sobject conditions fields limit\<close> is
  \<^verbatim>\<open>$(sobject).find(conditions, fields).limit(limit)\<close> on the remote store as it
  is while a collection's fields are resolved: the records found, or a rejection.
\<close>

type_synonym finder = "string \<Rightarrow> string \<Rightarrow> string \<Rightarrow> nat \<Rightarrow> string + jrecord list"

text \<open>
  \<^verbatim>\<open>getFieldValue\<close> and \<^verbatim>\<open>updateFieldValues\<close>. The parameter \<^verbatim>\<open>field\<close> of the source
  is not used there and is left out. \<^verbatim>\<open>_.isObject\<close> holds of objects, arrays and
  functions; \<^verbatim>\<open>Object.keys\<close> of an array are its indices, and a function has none.
  The fields of a record are resolved independently and assigned in place; the
  lookups are all sent before any answer comes. When several fail, the source
  reports the one that is answered first; here it is the first in field order.
  The functions below give the outcome; \<open>assigned\<close> further down gives what the
  assignments leave in the record.
\<close>

fun getFieldValue :: "finder \<Rightarrow> (string \<rightharpoonup> string) \<Rightarrow> json \<Rightarrow> error + json"
  and updateFieldValues :: "finder \<Rightarrow> (string \<rightharpoonup> string) \<Rightarrow> jrecord \<Rightarrow> error + jrecord"
  and updateElements :: "finder \<Rightarrow> (string \<rightharpoonup> string) \<Rightarrow> json list \<Rightarrow> error + json list"
  where
  "getFieldValue fnd old2newId (JObj record) =
     (case updateFieldValues fnd old2newId record of
        Inl e \<Rightarrow> Inl e | Inr record' \<Rightarrow> Inr (JObj record'))"
| "getFieldValue fnd old2newId (JArr elems) =
     (case updateElements fnd old2newId elems of
        Inl e \<Rightarrow> Inl e | Inr elems' \<Rightarrow> Inr (JArr elems'))"
| "getFieldValue fnd old2newId (JNative f) = Inr (JNative f)"
| "getFieldValue fnd old2newId (JStr value) =
     (case soql_match value of
        Some (soqlSelect, soqlFrom, soqlWhere) \<Rightarrow>
          (case fnd soqlFrom soqlWhere soqlSelect 1 of
             Inl m \<Rightarrow> Inl (Rejected m)
           | Inr [] \<Rightarrow> Inl (LookupNotFound value)
           | Inr (record # rest) \<Rightarrow> Inr (get_prop record ''Id''))
      | None \<Rightarrow>
          (if truthy (lookup_id old2newId value) then Inr (lookup_id old2newId value)
           else Inr (JStr value)))"
| "getFieldValue fnd old2newId JUndefined = Inr JUndefined"
| "getFieldValue fnd old2newId JNull = Inr JNull"
| "getFieldValue fnd old2newId (JBool b) = Inr (JBool b)"
| "getFieldValue fnd old2newId (JNum i) = Inr (JNum i)"
| "updateFieldValues fnd old2newId [] = Inr []"
| "updateFieldValues fnd old2newId ((field, v) # record) =
     (case getFieldValue fnd old2newId v of
        Inl e \<Rightarrow> Inl e
      | Inr v' \<Rightarrow>
          (case updateFieldValues fnd old2newId record of
             Inl e \<Rightarrow> Inl e | Inr record' \<Rightarrow> Inr ((field, v') # record')))"
| "updateElements fnd old2newId [] = Inr []"
| "updateElements fnd old2newId (v # elems) =
     (case getFieldValue fnd old2newId v of
        Inl e \<Rightarrow> Inl e
      | Inr v' \<Rightarrow>
          (case updateElements fnd old2newId elems of
             Inl e \<Rightarrow> Inl e | Inr elems' \<Rightarrow> Inr (v' # elems')))"

text \<open>\<^verbatim>\<open>Promise.all(oldRecords.map(updateFieldValues))\<close>.\<close>

fun updateRecords :: "finder \<Rightarrow> (string \<rightharpoonup> string) \<Rightarrow> jrecord list \<Rightarrow> error + jrecord list" where
  "updateRecords fnd old2newId [] = Inr []"
| "updateRecords fnd old2newId (r # rs) =
     (case updateFieldValues fnd old2newId r of
        Inl e \<Rightarrow> Inl e
      | Inr r' \<Rightarrow>
          (case updateRecords fnd old2newId rs of
             Inl e \<Rightarrow> Inl e | Inr rs' \<Rightarrow> Inr (r' # rs')))"

text \<open>
  What the assignments \<^verbatim>\<open>record[field] = await getFieldValue(field, record[field])\<close>
  leave in a value once every lookup has been answered: a field whose resolution
  succeeded holds the resolved value, a field whose resolution failed holds what it
  held. A nested object or array is the same object before and after, with its own
  fields assigned. When the resolution of the whole value succeeds this is the
  resolved value (\<open>assigned_resolved\<close>).
\<close>

fun assigned :: "finder \<Rightarrow> (string \<rightharpoonup> string) \<Rightarrow> json \<Rightarrow> json"
  and assignedFields :: "finder \<Rightarrow> (string \<rightharpoonup> string) \<Rightarrow> jrecord \<Rightarrow> jrecord"
  and assignedElements :: "finder \<Rightarrow> (string \<rightharpoonup> string) \<Rightarrow> json list \<Rightarrow> json list"
  where
  "assigned fnd old2newId (JObj record) = JObj (assignedFields fnd old2newId record)"
| "assigned fnd old2newId (JArr elems) = JArr (assignedElements fnd old2newId elems)"
| "assigned fnd old2newId (JStr value) =
     (case getFieldValue fnd old2newId (JStr value) of Inl e \<Rightarrow> JStr value | Inr v \<Rightarrow> v)"
| "assigned fnd old2newId (JNative f) = JNative f"
| "assigned fnd old2newId JUndefined = JUndefined"
| "assigned fnd old2newId JNull = JNull"
| "assigned fnd old2newId (JBool b) = JBool b"
| "assigned fnd old2newId (JNum i) = JNum i"
| "assignedFields fnd old2newId [] = []"
| "assignedFields fnd old2newId ((field, v) # record) =
     (field, assigned fnd old2newId v) # assignedFields fnd old2newId record"
| "assignedElements fnd old2newId [] = []"
| "assignedElements fnd old2newId (v # elems) =
     assigned fnd old2newId v # assignedElements fnd old2newId elems"

section \<open>Collaborators\<close>

subsection \<open>The file system\<close>

text \<open>
  The identifier file of a collection is \<^verbatim>\<open>path.join(sobjectIdsPath, sobject + '.json')\<close>,
  one path for each name, so the files are indexed by the name. A path holds no file,
  a file that can be neither read nor written, a file that is not JSON, or a list of
  identifiers.
\<close>

datatype fnode = Absent | Denied | Corrupt | Ids "string list"

datatype fs_error = ENOENT | EACCES | SyntaxError

type_synonym files = "string \<Rightarrow> fnode"

text \<open>\<^verbatim>\<open>readFile\<close> followed by \<^verbatim>\<open>JSON.parse\<close>, and \<^verbatim>\<open>writeFile\<close>, \<^verbatim>\<open>unlink\<close> of Node.\<close>

definition readFile :: "string \<Rightarrow> files \<Rightarrow> fs_error + string list" where
  "readFile path fs =
     (case fs path of
        Absent \<Rightarrow> Inl ENOENT | Denied \<Rightarrow> Inl EACCES | Corrupt \<Rightarrow> Inl SyntaxError
      | Ids ids \<Rightarrow> Inr ids)"

definition writeFile :: "string \<Rightarrow> string list \<Rightarrow> files \<Rightarrow> (fs_error + unit) \<times> files" where
  "writeFile path data fs =
     (case fs path of
        Denied \<Rightarrow> (Inl EACCES, fs)
      | _ \<Rightarrow> (Inr (), fs(path := Ids data)))"

definition unlink :: "string \<Rightarrow> files \<Rightarrow> (fs_error + unit) \<times> files" where
  "unlink path fs =
     (case fs path of
        Absent \<Rightarrow> (Inl ENOENT, fs)
      | Denied \<Rightarrow> (Inl EACCES, fs)
      | _ \<Rightarrow> (Inr (), fs(path := Absent)))"

fun show_fs_error :: "fs_error \<Rightarrow> string" where
  "show_fs_error ENOENT = ''ENOENT''"
| "show_fs_error EACCES = ''EACCES''"
| "show_fs_error SyntaxError = ''SyntaxError''"

text \<open>
  \<^verbatim>\<open>file-system.ts\<close>. \<^verbatim>\<open>readJSONFile\<close> and \<^verbatim>\<open>deleteJSONFile\<close> await the call they
  make. \<^verbatim>\<open>writeJSONFile\<close> starts \<^verbatim>\<open>writeFile\<close> and neither awaits nor returns its
  promise: it resolves whatever becomes of the write. The write is taken to have
  landed when \<^verbatim>\<open>writeJSONFile\<close> returns; in the source it lands some time later, and
  no step of a load reads the file.
\<close>

definition readJSONFile :: "string \<Rightarrow> files \<Rightarrow> fs_error + string list" where
  "readJSONFile filePath fs = readFile filePath fs"

definition writeJSONFile :: "string \<Rightarrow> string list \<Rightarrow> files \<Rightarrow> (fs_error + unit) \<times> files" where
  "writeJSONFile filePath data fs = (Inr (), snd (writeFile filePath data fs))"

definition deleteJSONFile :: "string \<Rightarrow> files \<Rightarrow> (fs_error + unit) \<times> files" where
  "deleteJSONFile filePath fs = unlink filePath fs"

subsection \<open>The remote store\<close>

text \<open>
  The jsforce connection is an interface: its four calls are parameters, functions of
  the state \<open>'r\<close> of the remote store. \<open>Inl\<close> is a rejected call. The two finds read
  the store; create and destroy change it.
\<close>

datatype api = Standard | Tooling

record 'r remote =
  find_records :: "'r \<Rightarrow> api \<Rightarrow> string \<Rightarrow> string \<Rightarrow> string \<Rightarrow> nat \<Rightarrow> string + jrecord list"
  create_records :: "'r \<Rightarrow> api \<Rightarrow> string \<Rightarrow> jrecord list \<Rightarrow> (string + save_result list) \<times> 'r"
  find_by_ids :: "'r \<Rightarrow> api \<Rightarrow> string \<Rightarrow> string list \<Rightarrow> string + jrecord list"
  destroy_records :: "'r \<Rightarrow> api \<Rightarrow> string \<Rightarrow> json list \<Rightarrow> (string + save_result list) \<times> 'r"

section \<open>The loader\<close>

text \<open>What \<^verbatim>\<open>getDataLoader\<close> fixes before it returns the two operations.\<close>

record 'r loader =
  connection :: "'r remote"
  toolingSObjects :: "string list"
  sobjects :: "string list"
  parent2child :: "string \<Rightarrow> string list"
  child2parent :: "string \<Rightarrow> string list"

text \<open>
  A dictionary filled by \<^verbatim>\<open>keys.forEach(k => { dict[k] = f(k) })\<close>. The loader reads it
  for names of \<open>keys\<close> only; a name that is no key has no entry, and no neighbours here.
\<close>

definition dictionary :: "string list \<Rightarrow> (string \<Rightarrow> string list) \<Rightarrow> string \<Rightarrow> string list" where
  "dictionary keys f k = (if k \<in> set keys then f k else [])"

definition getDataLoader ::
  "'r remote \<Rightarrow> string list \<Rightarrow> string list \<Rightarrow> (string \<Rightarrow> jrecord list) \<Rightarrow> 'r loader" where
  "getDataLoader conn tooling names sobject2records =
     \<lparr> connection = conn, toolingSObjects = tooling, sobjects = names,
       parent2child = dictionary names (parent2childObjects names sobject2records),
       child2parent = dictionary names (child2parentSObjects names sobject2records) \<rparr>"

text \<open>\<^verbatim>\<open>$\<close>: the API surface of a collection.\<close>

definition dollar :: "'r loader \<Rightarrow> string \<Rightarrow> api" where
  "dollar L sobject = (if sobject \<in> set (toolingSObjects L) then Tooling else Standard)"

text \<open>
  What a run reads and writes: the records (assigned and stripped in place), the
  identifier files, the remote store, the two variables of the running operation
  (\<open>old2newId\<close>, and the cache of \<^verbatim>\<open>_.memoize\<close>), the collections whose function has
  started and has not ended yet (\<open>pending\<close>, the latest first: the chain of the calls
  that wait for one another), and the steps taken so far. The calls of a run are
  awaited one after the other; \<open>memo\<close> holds the promises of the cache that are
  settled, with their outcome.

  \<^verbatim>\<open>_.memoize\<close> puts the promise of a call into the cache when the function under it
  returns it, which is at the first \<^verbatim>\<open>await\<close> of the function. Up to there the function
  runs synchronously, and by then it has called the memoized function for its first
  neighbour, which did the same. So the pending collections are of two kinds. The
  latest of them, started one inside the other with no \<^verbatim>\<open>await\<close> in between, are not
  in the cache yet; \<open>descent\<close> is their number. The others are in the cache with a
  promise that is not settled. A call that has returned has been awaited, so after it
  every pending collection is in the cache.

  \<open>old2newId\<close> is the list of the own properties of the object, a key once. The order
  in which JavaScript enumerates them is not kept and nothing depends on it.

  The steps: a call of the memoized function (\<open>LoadCalled\<close>, \<open>DeleteCalled\<close>); the start
  of the function under it, where the source logs \<^verbatim>\<open>'started'\<close>; the start of the
  resolution of a collection's fields, with \<open>old2newId\<close> as it is then; the log of
  \<^verbatim>\<open>'before creating'\<close> with the records that are sent to create; the answer of the
  batch create; the call of \<^verbatim>\<open>writeJSONFile\<close>; the merge into \<open>old2newId\<close> of the new
  identifiers under the old ones, with the log of \<^verbatim>\<open>'done'\<close> that follows it
  (\<open>LoadDone\<close>); the log of \<^verbatim>\<open>'skipped'\<close>; the call of destroy; the log of \<^verbatim>\<open>'done'\<close>
  of a deletion.
\<close>

type_synonym id_map = "(string \<times> string) list"

datatype event =
    LoadCalled string
  | LoadStarted string
  | ResolveStarted string id_map
  | BeforeCreating string "jrecord list"
  | CreateReturned string "save_result list"
  | IdsWriteCalled string "string list"
  | LoadDone string "json list" "string list"
  | DeleteCalled string
  | DeleteStarted string
  | DeleteSkipped string
  | DestroyCalled string
  | DeleteDone string

record 'r state =
  sobject2records :: "string \<Rightarrow> jrecord list"
  id_files :: files
  remote_state :: 'r
  old2newId :: id_map
  memo :: "string \<rightharpoonup> error + unit"
  pending :: "string list"
  descent :: nat
  trace :: "event list"

definition emit :: "event \<Rightarrow> 'r state \<Rightarrow> 'r state" where
  "emit e st = st\<lparr>trace := trace st @ [e]\<rparr>"

text \<open>
  \<^verbatim>\<open>for (const x of xs) { await f(x); }\<close>: the first failure leaves the loop; a call
  that does not return keeps the loop from returning.
\<close>

fun for_each ::
  "(string \<Rightarrow> 's \<Rightarrow> ((error + unit) \<times> 's) option) \<Rightarrow> string list \<Rightarrow> 's
     \<Rightarrow> ((error + unit) \<times> 's) option" where
  "for_each f [] st = Some (Inr (), st)"
| "for_each f (x # xs) st =
     (case f x st of
        None \<Rightarrow> None
      | Some (Inl e, st') \<Rightarrow> Some (Inl e, st')
      | Some (Inr u, st') \<Rightarrow> for_each f xs st')"

subsection \<open>Loading\<close>

text \<open>\<^verbatim>\<open>object[key] = value\<close> on the list of the own properties.\<close>

fun assign_key :: "string \<Rightarrow> string \<Rightarrow> id_map \<Rightarrow> id_map" where
  "assign_key k v [] = [(k, v)]"
| "assign_key k v ((k', v') # ids) =
     (if k' = k then (k, v) # ids else (k', v') # assign_key k v ids)"

text \<open>
  \<^verbatim>\<open>_.merge(old2newId, _.zipObject(oldRecordsIds, newRecordsIds))\<close>: the old identifiers
  become keys as text, a later pair replaces an earlier one. An old identifier beyond
  the new ones gets \<^verbatim>\<open>undefined\<close> in the source and no entry here; both read as
  \<^verbatim>\<open>undefined\<close>.
\<close>

definition merge_ids :: "id_map \<Rightarrow> json list \<Rightarrow> string list \<Rightarrow> id_map" where
  "merge_ids ids oldRecordsIds newRecordsIds =
     fold (\<lambda>(k, v). assign_key k v) (zip (map to_text oldRecordsIds) newRecordsIds) ids"

text \<open>
  The body of \<^verbatim>\<open>loadSObjectData\<close> from the resolution of the fields on, that is after
  the loop over the parents. When the resolution fails the records are left as the
  assignments made them; the model takes them as they are once every lookup has been
  answered, which in the source may be after the failure is thrown.
\<close>

definition load_records :: "'r loader \<Rightarrow> string \<Rightarrow> 'r state \<Rightarrow> (error + unit) \<times> 'r state" where
  "load_records L sobject st0 =
     (let st = emit (ResolveStarted sobject (old2newId st0)) st0;
          oldRecords = sobject2records st sobject;
          fnd = (\<lambda>soqlFrom. find_records (connection L) (remote_state st) (dollar L soqlFrom) soqlFrom)
      in case updateRecords fnd (map_of (old2newId st)) oldRecords of
           Inl e \<Rightarrow>
             (Inl e, st\<lparr>sobject2records := (sobject2records st)
                          (sobject := map (assignedFields fnd (map_of (old2newId st))) oldRecords)\<rparr>)
         | Inr resolved \<Rightarrow>
             (let oldRecordsIds = map (\<lambda>r. get_prop r ''id'') resolved;
                  stripped = map (delete_prop ''id'') resolved;
                  st1 = emit (BeforeCreating sobject stripped)
                          (st\<lparr>sobject2records := (sobject2records st)(sobject := stripped)\<rparr>)
              in case create_records (connection L) (remote_state st1) (dollar L sobject) sobject stripped of
                   (Inl m, rs) \<Rightarrow> (Inl (Rejected m), st1\<lparr>remote_state := rs\<rparr>)
                 | (Inr newRecords, rs) \<Rightarrow>
                     (let st2 = emit (CreateReturned sobject newRecords) (st1\<lparr>remote_state := rs\<rparr>)
                      in if list_ex (\<lambda>res. \<not> success res) newRecords
                         then (Inl (CreateFailed sobject), st2)
                         else
                           (let newRecordsIds = map result_id newRecords
                            in case writeJSONFile sobject newRecordsIds (id_files st2) of
                                 (Inl err, fs) \<Rightarrow> (Inl (Rejected (show_fs_error err)), st2\<lparr>id_files := fs\<rparr>)
                               | (Inr u, fs) \<Rightarrow>
                                   (let st3 = emit (IdsWriteCalled sobject newRecordsIds)
                                                (st2\<lparr>id_files := fs\<rparr>);
                                        st4 = st3\<lparr>old2newId :=
                                                 merge_ids (old2newId st3) oldRecordsIds newRecordsIds\<rparr>
                                    in (Inr (), emit (LoadDone sobject oldRecordsIds newRecordsIds) st4))))))"

text \<open>
  \<^verbatim>\<open>loadSObjectData = _.memoize(async sobject => ...)\<close>. The first argument bounds
  the depth of the calls; \<open>None\<close> is a call that does not return within it.

  A call for a pending collection that is not in the cache yet starts the function
  again, which calls its first parent again, and so on: nothing ends this descent but
  the call stack, and every call of the chain, and with them the run, is rejected with
  the \<^verbatim>\<open>RangeError\<close>. The model rejects such a call at once; the starts that the
  source logs on the way down are not among the steps. A call for a pending
  collection that is in the cache gets its promise and waits for it, while that
  collection waits for this call: it does not return.
\<close>

primrec loadSObjectData ::
  "nat \<Rightarrow> 'r loader \<Rightarrow> string \<Rightarrow> 'r state \<Rightarrow> ((error + unit) \<times> 'r state) option" where
  "loadSObjectData 0 L sobject st = None"
| "loadSObjectData (Suc n) L sobject st =
     (let st1 = emit (LoadCalled sobject) st
      in case memo st1 sobject of
           Some outcome \<Rightarrow> Some (outcome, st1\<lparr>descent := 0\<rparr>)
         | None \<Rightarrow>
             if sobject \<in> set (take (descent st1) (pending st1))
             then Some (Inl StackExhausted, st1\<lparr>descent := 0\<rparr>)
             else if sobject \<in> set (pending st1) then None
             else
               (case for_each (loadSObjectData n L) (child2parent L sobject)
                       ((emit (LoadStarted sobject) st1)
                          \<lparr>pending := sobject # pending st1, descent := Suc (descent st1)\<rparr>) of
                  None \<Rightarrow> None
                | Some (Inl e, st2) \<Rightarrow>
                    Some (Inl e, st2\<lparr>memo := (memo st2)(sobject \<mapsto> Inl e),
                                     pending := pending st1, descent := 0\<rparr>)
                | Some (Inr u, st2) \<Rightarrow>
                    (case load_records L sobject st2 of
                       (outcome, st3) \<Rightarrow>
                         Some (outcome,
                               st3\<lparr>memo := (memo st3)(sobject \<mapsto> outcome),
                                   pending := pending st1, descent := 0\<rparr>))))"

text \<open>\<^verbatim>\<open>loadData\<close>: the dictionary when every collection was loaded, and the last state.\<close>

definition loadData ::
  "nat \<Rightarrow> 'r loader \<Rightarrow> 'r state \<Rightarrow> ((error + id_map) \<times> 'r state) option" where
  "loadData n L st =
     (case for_each (loadSObjectData n L) (sobjects L)
             (st\<lparr>old2newId := [], memo := Map.empty, pending := [], descent := 0\<rparr>) of
        None \<Rightarrow> None
      | Some (Inl e, st') \<Rightarrow> Some (Inl e, st')
      | Some (Inr u, st') \<Rightarrow> Some (Inr (old2newId st'), st'))"

subsection \<open>Deleting\<close>

text \<open>
  The body of \<^verbatim>\<open>deleteLoadedSObjectData\<close> after the loop over the children. The file is
  not removed: \<^verbatim>\<open>deleteJSONFile\<close> is not called.
\<close>

definition delete_records :: "'r loader \<Rightarrow> string \<Rightarrow> 'r state \<Rightarrow> (error + unit) \<times> 'r state" where
  "delete_records L sobject st =
     (case readJSONFile sobject (id_files st) of
        Inl err \<Rightarrow> (Inr (), emit (DeleteSkipped sobject) st)
      | Inr ids \<Rightarrow>
          (case find_by_ids (connection L) (remote_state st) (dollar L sobject) sobject ids of
             Inl m \<Rightarrow> (Inl (Rejected m), st)
           | Inr recs \<Rightarrow>
               (let st1 = emit (DestroyCalled sobject) st
                in case destroy_records (connection L) (remote_state st1) (dollar L sobject) sobject
                          (map (\<lambda>r. get_prop r ''Id'') recs) of
                     (Inl m, rs) \<Rightarrow> (Inl (Rejected m), st1\<lparr>remote_state := rs\<rparr>)
                   | (Inr ress, rs) \<Rightarrow>
                       (if list_ex (\<lambda>res. \<not> success res) ress
                        then (Inl (DeleteFailed sobject ress), st1\<lparr>remote_state := rs\<rparr>)
                        else (Inr (), emit (DeleteDone sobject) (st1\<lparr>remote_state := rs\<rparr>))))))"

primrec deleteLoadedSObjectData ::
  "nat \<Rightarrow> 'r loader \<Rightarrow> string \<Rightarrow> 'r state \<Rightarrow> ((error + unit) \<times> 'r state) option" where
  "deleteLoadedSObjectData 0 L sobject st = None"
| "deleteLoadedSObjectData (Suc n) L sobject st =
     (let st1 = emit (DeleteCalled sobject) st
      in case memo st1 sobject of
           Some outcome \<Rightarrow> Some (outcome, st1\<lparr>descent := 0\<rparr>)
         | None \<Rightarrow>
             if sobject \<in> set (take (descent st1) (pending st1))
             then Some (Inl StackExhausted, st1\<lparr>descent := 0\<rparr>)
             else if sobject \<in> set (pending st1) then None
             else
               (case for_each (deleteLoadedSObjectData n L) (parent2child L sobject)
                       ((emit (DeleteStarted sobject) st1)
                          \<lparr>pending := sobject # pending st1, descent := Suc (descent st1)\<rparr>) of
                  None \<Rightarrow> None
                | Some (Inl e, st2) \<Rightarrow>
                    Some (Inl e, st2\<lparr>memo := (memo st2)(sobject \<mapsto> Inl e),
                                     pending := pending st1, descent := 0\<rparr>)
                | Some (Inr u, st2) \<Rightarrow>
                    (case delete_records L sobject st2 of
                       (outcome, st3) \<Rightarrow>
                         Some (outcome,
                               st3\<lparr>memo := (memo st3)(sobject \<mapsto> outcome),
                                   pending := pending st1, descent := 0\<rparr>))))"

definition deleteLoadedData ::
  "nat \<Rightarrow> 'r loader \<Rightarrow> 'r state \<Rightarrow> ((error + unit) \<times> 'r state) option" where
  "deleteLoadedData n L st =
     for_each (deleteLoadedSObjectData n L) (sobjects L)
       (st\<lparr>memo := Map.empty, pending := [], descent := 0\<rparr>)"

section \<open>The shape of the two memoized functions\<close>

text \<open>
  \<^verbatim>\<open>loadSObjectData\<close> and \<^verbatim>\<open>deleteLoadedSObjectData\<close> have one shape: look the name up
  in the cache; if it is not there and not pending, log the start, call the function
  for every neighbour in turn, run the body, and put the outcome into the cache.
  \<open>walk\<close> is that shape, with the two steps logged, the neighbours and the body as
  parameters; both functions are instances of it (\<open>load_is_walk\<close>, \<open>delete_is_walk\<close>).
\<close>

primrec walk ::
  "(string \<Rightarrow> event) \<Rightarrow> (string \<Rightarrow> event) \<Rightarrow> (string \<Rightarrow> string list)
     \<Rightarrow> (string \<Rightarrow> 'r state \<Rightarrow> (error + unit) \<times> 'r state)
     \<Rightarrow> nat \<Rightarrow> string \<Rightarrow> 'r state \<Rightarrow> ((error + unit) \<times> 'r state) option" where
  "walk called started nbrs body 0 x st = None"
| "walk called started nbrs body (Suc n) x st =
     (let st1 = emit (called x) st
      in case memo st1 x of
           Some outcome \<Rightarrow> Some (outcome, st1\<lparr>descent := 0\<rparr>)
         | None \<Rightarrow>
             if x \<in> set (take (descent st1) (pending st1))
             then Some (Inl StackExhausted, st1\<lparr>descent := 0\<rparr>)
             else if x \<in> set (pending st1) then None
             else
               (case for_each (walk called started nbrs body n) (nbrs x)
                       ((emit (started x) st1)
                          \<lparr>pending := x # pending st1, descent := Suc (descent st1)\<rparr>) of
                  None \<Rightarrow> None
                | Some (Inl e, st2) \<Rightarrow>
                    Some (Inl e, st2\<lparr>memo := (memo st2)(x \<mapsto> Inl e),
                                     pending := pending st1, descent := 0\<rparr>)
                | Some (Inr u, st2) \<Rightarrow>
                    (case body x st2 of
                       (outcome, st3) \<Rightarrow>
                         Some (outcome,
                               st3\<lparr>memo := (memo st3)(x \<mapsto> outcome),
                                   pending := pending st1, descent := 0\<rparr>))))"

text \<open>The neighbour relation of a walk: \<open>(y, x)\<close> when the walk of \<open>x\<close> calls \<open>y\<close>.\<close>

definition calls :: "(string \<Rightarrow> string list) \<Rightarrow> (string \<times> string) set" where
  "calls nbrs = {(y, x). y \<in> set (nbrs x)}"

text \<open>
  The input is acyclic when no collection is its own ancestor, that is when the parent
  relation of the loader has no cycle.
\<close>

definition parent_rel :: "'r loader \<Rightarrow> (string \<times> string) set" where
  "parent_rel L = calls (child2parent L)"

definition child_rel :: "'r loader \<Rightarrow> (string \<times> string) set" where
  "child_rel L = calls (parent2child L)"

text \<open>The steps a run adds to the steps taken before it.\<close>

definition steps_since :: "'r state \<Rightarrow> 'r state \<Rightarrow> event list" where
  "steps_since st st' = drop (length (trace st)) (trace st')"

text \<open>Every step of \<open>t\<close> satisfies \<open>G\<close> together with the steps before it.\<close>

definition each_after :: "(event list \<Rightarrow> event \<Rightarrow> bool) \<Rightarrow> event list \<Rightarrow> bool" where
  "each_after G t = (\<forall>pre e post. t = pre @ e # post \<longrightarrow> G pre e)"

text \<open>
  A body that leaves the cache and the pending collections alone and logs neither a
  call nor a start.
\<close>

definition quiet ::
  "(string \<Rightarrow> event) \<Rightarrow> (string \<Rightarrow> event)
     \<Rightarrow> (string \<Rightarrow> 'r state \<Rightarrow> (error + unit) \<times> 'r state) \<Rightarrow> bool" where
  "quiet called started body =
     (\<forall>x s. memo (snd (body x s)) = memo s \<and> pending (snd (body x s)) = pending s \<and>
        (\<exists>new. trace (snd (body x s)) = trace s @ new \<and>
           (\<forall>y. called y \<notin> set new \<and> started y \<notin> set new)))"

text \<open>
  What a walk does to the cache and the log: it adds steps; it leaves the pending
  collections as they are; it keeps every entry of the cache; it adds no entry for a
  pending collection; it starts exactly the names it adds; every name it is called
  for is in the cache afterwards or pending; and it starts only names it was called
  for.
\<close>

definition walk_post ::
  "(string \<Rightarrow> event) \<Rightarrow> (string \<Rightarrow> event) \<Rightarrow> 'r state \<Rightarrow> 'r state \<Rightarrow> bool" where
  "walk_post called started st st' =
     (\<exists>new. trace st' = trace st @ new \<and> pending st' = pending st \<and>
        (\<forall>y. memo st y \<noteq> None \<longrightarrow> memo st' y = memo st y) \<and>
        (\<forall>y. y \<in> set (pending st) \<longrightarrow> memo st' y = memo st y) \<and>
        (\<forall>y. count_list new (started y) = (if memo st y = None \<and> memo st' y \<noteq> None then 1 else 0)) \<and>
        (\<forall>y. called y \<in> set new \<longrightarrow> memo st' y \<noteq> None \<or> y \<in> set (pending st)) \<and>
        (\<forall>y. started y \<in> set new \<longrightarrow> called y \<in> set new))"

subsection \<open>Reading the steps of a load\<close>

text \<open>Whether the resolution of the fields of \<open>C\<close> has started among the steps \<open>t\<close>.\<close>

fun is_resolve :: "string \<Rightarrow> event \<Rightarrow> bool" where
  "is_resolve C (ResolveStarted D ids) = (D = C)"
| "is_resolve C e = False"

definition resolving :: "string \<Rightarrow> event list \<Rightarrow> bool" where
  "resolving C t = list_ex (is_resolve C) t"

text \<open>Whether the identifiers of \<open>C\<close> have been merged among the steps \<open>t\<close>.\<close>

fun is_merge :: "string \<Rightarrow> event \<Rightarrow> bool" where
  "is_merge C (LoadDone D olds news) = (D = C)"
| "is_merge C e = False"

definition merged :: "string \<Rightarrow> event list \<Rightarrow> bool" where
  "merged C t = list_ex (is_merge C) t"

text \<open>Whether the identifier file of \<open>C\<close> has been written among the steps \<open>t\<close>.\<close>

fun is_write :: "string \<Rightarrow> event \<Rightarrow> bool" where
  "is_write C (IdsWriteCalled D ids) = (D = C)"
| "is_write C e = False"

definition written :: "string \<Rightarrow> event list \<Rightarrow> bool" where
  "written C t = list_ex (is_write C) t"

text \<open>
  The dictionary that the merges among the steps \<open>t\<close> build, one after the other, from
  the empty one.
\<close>

fun merge_step :: "event \<Rightarrow> id_map \<Rightarrow> id_map" where
  "merge_step (LoadDone C olds news) ids = merge_ids ids olds news"
| "merge_step e ids = ids"

definition merged_ids :: "event list \<Rightarrow> id_map" where
  "merged_ids t = fold merge_step t []"

text \<open>
  A value the field resolver gives back as it is, whatever the remote store answers,
  when it reads the dictionary \<open>m\<close>: a scalar that is no string, or a string in which
  the pattern has no match and whose lookup in \<open>m\<close> is not taken for true.
\<close>

fun plain :: "(string \<rightharpoonup> string) \<Rightarrow> json \<Rightarrow> bool" where
  "plain m (JStr s) = (soql_match s = None \<and> \<not> truthy (lookup_id m s))"
| "plain m (JObj r) = False"
| "plain m (JArr xs) = False"
| "plain m v = True"

text \<open>
  The order the steps must keep, the records being \<open>recs\<close> at the start. When the
  resolution of a collection starts, every parent has been merged before and the
  dictionary is the one that the merges before have built. The answer of a batch
  create comes right after the log of the records sent, which comes right after the
  start of the resolution. When the identifiers of a collection are merged, every
  parent has been merged before; the resolution of the collection has started and its
  batch create has answered, every record a success; the new identifiers are those of
  the answer; and the old identifier of a record is what the record had as \<open>id\<close> at
  the start, if that is a value the resolver gives back as it is.
\<close>

fun load_guard :: "'r loader \<Rightarrow> (string \<Rightarrow> jrecord list) \<Rightarrow> event list \<Rightarrow> event \<Rightarrow> bool" where
  "load_guard L recs pre (ResolveStarted C ids) =
     (list_all (\<lambda>P. merged P pre) (child2parent L C) \<and> ids = merged_ids pre)"
| "load_guard L recs pre (CreateReturned C rs) =
     (\<exists>p ids sent. pre = p @ [ResolveStarted C ids, BeforeCreating C sent])"
| "load_guard L recs pre (LoadDone C olds news) =
     (list_all (\<lambda>P. merged P pre) (child2parent L C) \<and>
      (\<exists>ids rs. ResolveStarted C ids \<in> set pre \<and> CreateReturned C rs \<in> set pre \<and>
         \<not> list_ex (\<lambda>r. \<not> success r) rs \<and> news = map result_id rs \<and>
         list_all2 (\<lambda>r old. plain (map_of ids) (get_prop r ''id'') \<longrightarrow> old = get_prop r ''id'')
           (recs C) olds))"
| "load_guard L recs pre e = True"

definition deleted :: "string \<Rightarrow> event list \<Rightarrow> bool" where
  "deleted D t = (DeleteSkipped D \<in> set t \<or> DeleteDone D \<in> set t)"

text \<open>
  In a deletion, when destroy is called for a collection, the deletion of every child
  has ended before, skipped or done.
\<close>

fun delete_guard :: "'r loader \<Rightarrow> event list \<Rightarrow> event \<Rightarrow> bool" where
  "delete_guard L pre (DestroyCalled C) = list_all (\<lambda>D. deleted D pre) (parent2child L C)"
| "delete_guard L pre e = True"

text \<open>
  What holds of a state and of the steps \<open>t\<close> taken since the steps \<open>b\<close>, all along a
  load that started with the records \<open>recs\<close>: the steps keep their order; a collection
  that is in the cache as done has been merged; the dictionary is the one the merges
  have built; the records of a collection are those of the start until its resolution
  starts; and a collection whose resolution has started is in the cache when its
  function has returned.
\<close>

definition load_order ::
  "'r loader \<Rightarrow> (string \<Rightarrow> jrecord list) \<Rightarrow> event list \<Rightarrow> 'r state \<Rightarrow> bool" where
  "load_order L recs b st =
     (\<exists>t. trace st = b @ t \<and> each_after (load_guard L recs) t \<and>
        (\<forall>y. memo st y = Some (Inr ()) \<longrightarrow> merged y t) \<and>
        old2newId st = merged_ids t \<and>
        (\<forall>y. sobject2records st y \<noteq> recs y \<longrightarrow> resolving y t) \<and>
        (\<forall>y. resolving y t \<longrightarrow> memo st y \<noteq> None))"

definition delete_order :: "'r loader \<Rightarrow> event list \<Rightarrow> 'r state \<Rightarrow> bool" where
  "delete_order L b st =
     (\<exists>t. trace st = b @ t \<and> each_after (delete_guard L) t \<and>
        (\<forall>y. memo st y = Some (Inr ()) \<longrightarrow> deleted y t))"

text \<open>The errors the field resolver gives.\<close>

fun lookup_error :: "error \<Rightarrow> bool" where
  "lookup_error (LookupNotFound q) = True"
| "lookup_error (Rejected m) = True"
| "lookup_error e = False"

text \<open>A step that tells of a batch create with a failed record, and the error it leads to.\<close>

fun create_failure :: "event \<Rightarrow> error \<Rightarrow> bool" where
  "create_failure (CreateReturned C rs) err =
     (list_ex (\<lambda>r. \<not> success r) rs \<and> err = CreateFailed C)"
| "create_failure e err = False"

text \<open>
  A step of the kind \<open>bad\<close> among the steps of a call is the last of them, and the call
  returns the error that goes with it.
\<close>

definition last_failure ::
  "(event \<Rightarrow> error \<Rightarrow> bool) \<Rightarrow> 'r state \<Rightarrow> error + unit \<Rightarrow> 'r state \<Rightarrow> bool" where
  "last_failure bad st r st' =
     (\<exists>u. trace st' = trace st @ u \<and>
        (\<forall>e err. e \<in> set u \<and> bad e err \<longrightarrow> r = Inl err \<and> (\<exists>pre. u = pre @ [e])))"

text \<open>
  What the steps \<open>t\<close> taken since the steps \<open>b\<close> tell of the cache, the files being
  \<open>f0\<close> at the start: a collection whose identifiers were written or merged, or whose
  file has changed, is in the cache as done; a collection whose create failed is in
  the cache with that failure.
\<close>

definition load_marks :: "files \<Rightarrow> event list \<Rightarrow> 'r state \<Rightarrow> bool" where
  "load_marks f0 b st =
     (\<exists>t. trace st = b @ t \<and>
        (\<forall>C. merged C t \<or> written C t \<or> id_files st C \<noteq> f0 C
               \<longrightarrow> memo st C = Some (Inr ())) \<and>
        (\<forall>C rs. CreateReturned C rs \<in> set t \<and> list_ex (\<lambda>r. \<not> success r) rs
               \<longrightarrow> memo st C = Some (Inl (CreateFailed C))))"

text \<open>
  The stored records of a collection that is in the cache as done are the records
  that were sent to create for it: the records of the start \<open>recs\<close>, resolved with
  the dictionary of that moment and the answers of the remote store in some state
  \<open>remote\<close>, without their \<open>id\<close>.
\<close>

definition sent_records ::
  "'r loader \<Rightarrow> (string \<Rightarrow> jrecord list) \<Rightarrow> event list \<Rightarrow> string \<Rightarrow> jrecord list \<Rightarrow> bool" where
  "sent_records L recs t C sent =
     (\<exists>ids. ResolveStarted C ids \<in> set t \<and> BeforeCreating C sent \<in> set t \<and>
        (\<exists>remote resolved.
           updateRecords (\<lambda>soqlFrom. find_records (connection L) remote (dollar L soqlFrom) soqlFrom)
             (map_of ids) (recs C) = Inr resolved \<and>
           sent = map (delete_prop ''id'') resolved))"

definition stored_when_done ::
  "'r loader \<Rightarrow> (string \<Rightarrow> jrecord list) \<Rightarrow> event list \<Rightarrow> 'r state \<Rightarrow> bool" where
  "stored_when_done L recs b st =
     (\<exists>t. trace st = b @ t \<and>
        (\<forall>y. sobject2records st y \<noteq> recs y \<longrightarrow> resolving y t) \<and>
        (\<forall>y. resolving y t \<longrightarrow> memo st y \<noteq> None) \<and>
        (\<forall>C. memo st C = Some (Inr ()) \<longrightarrow> sent_records L recs t C (sobject2records st C)))"

section \<open>A small instance\<close>

text \<open>
  The round trip of the specification: a parent collection with one record and a
  child collection whose record refers to it. The remote store counts the records it
  has created and numbers the identifiers it gives out; every lookup finds nothing.
\<close>

definition ex_names :: "string list" where
  "ex_names = [''Child'', ''Parent'']"

definition ex_records :: "string \<Rightarrow> jrecord list" where
  "ex_records n =
     (if n = ''Parent'' then [[(''id'', JStr ''p1''), (''name'', JStr ''Acme'')]]
      else if n = ''Child'' then [[(''id'', JStr ''c1''), (''parentRef'', JStr ''p1'')]]
      else [])"

definition ex_find :: "nat \<Rightarrow> api \<Rightarrow> string \<Rightarrow> string \<Rightarrow> string \<Rightarrow> nat \<Rightarrow> string + jrecord list" where
  "ex_find r a sobject conds flds lim = Inr []"

definition ex_create :: "nat \<Rightarrow> api \<Rightarrow> string \<Rightarrow> jrecord list \<Rightarrow> (string + save_result list) \<times> nat" where
  "ex_create r a sobject recs =
     (Inr (map (\<lambda>i. \<lparr>success = True, result_id = sobject @ show_nat i\<rparr>) [r ..< r + length recs]),
      r + length recs)"

definition ex_find_by_ids :: "nat \<Rightarrow> api \<Rightarrow> string \<Rightarrow> string list \<Rightarrow> string + jrecord list" where
  "ex_find_by_ids r a sobject ids = Inr (map (\<lambda>i. [(''Id'', JStr i)]) ids)"

definition ex_destroy :: "nat \<Rightarrow> api \<Rightarrow> string \<Rightarrow> json list \<Rightarrow> (string + save_result list) \<times> nat" where
  "ex_destroy r a sobject ids =
     (Inr (map (\<lambda>i. \<lparr>success = True, result_id = to_text i\<rparr>) ids), r)"

definition ex_remote :: "nat remote" where
  "ex_remote =
     \<lparr> find_records = ex_find, create_records = ex_create,
       find_by_ids = ex_find_by_ids, destroy_records = ex_destroy \<rparr>"

definition ex_loader :: "nat loader" where
  "ex_loader = getDataLoader ex_remote [] ex_names ex_records"

definition no_ids :: "string \<rightharpoonup> string" where
  "no_ids = Map.empty"

definition no_memo :: "string \<rightharpoonup> error + unit" where
  "no_memo = Map.empty"

definition no_files :: files where
  "no_files path = Absent"

definition ex_state :: "nat state" where
  "ex_state =
     \<lparr> sobject2records = ex_records, id_files = no_files, remote_state = 0,
       old2newId = [], memo = no_memo, pending = [], descent = 0, trace = [] \<rparr>"

definition ex_ids :: "string \<rightharpoonup> string" where
  "ex_ids = no_ids(''p1'' \<mapsto> ''Parent0'', ''p0'' \<mapsto> [])"

definition denied_files :: files where
  "denied_files path = Denied"

definition ex_denied_state :: "nat state" where
  "ex_denied_state = ex_state\<lparr>id_files := denied_files\<rparr>"

definition loaded_files :: files where
  "loaded_files path =
     (if path = ''Parent'' then Ids [''Parent0'']
      else if path = ''Child'' then Ids [''Child1'']
      else Absent)"

definition ex_loaded_state :: "nat state" where
  "ex_loaded_state = ex_state\<lparr>id_files := loaded_files, remote_state := 2\<rparr>"

text \<open>A remote store that fails every record of the collection \<open>bad\<close>.\<close>

definition ex_create_failing ::
  "string \<Rightarrow> nat \<Rightarrow> api \<Rightarrow> string \<Rightarrow> jrecord list \<Rightarrow> (string + save_result list) \<times> nat" where
  "ex_create_failing bad r a sobject recs =
     (Inr (map (\<lambda>i. \<lparr>success = (sobject \<noteq> bad), result_id = sobject @ show_nat i\<rparr>)
             [r ..< r + length recs]),
      r + length recs)"

definition ex_failing_loader :: "string \<Rightarrow> nat loader" where
  "ex_failing_loader bad =
     getDataLoader (ex_remote\<lparr>create_records := ex_create_failing bad\<rparr>) [] ex_names ex_records"

text \<open>
  The same two collections, the record of the parent having a query as its \<open>id\<close>, and
  a remote store in which every lookup finds one record.
\<close>

definition ex_query :: string where
  "ex_query = ''SELECT Id FROM Account WHERE Name=Acme''"

definition ex_query_records :: "string \<Rightarrow> jrecord list" where
  "ex_query_records n =
     (if n = ''Parent'' then [[(''id'', JStr ex_query), (''name'', JStr ''Acme'')]]
      else if n = ''Child'' then [[(''id'', JStr ''c1''), (''parentRef'', JStr ex_query)]]
      else [])"

definition ex_find_one :: "nat \<Rightarrow> api \<Rightarrow> string \<Rightarrow> string \<Rightarrow> string \<Rightarrow> nat \<Rightarrow> string + jrecord list" where
  "ex_find_one r a sobject conds flds lim = Inr [[(''Id'', JStr ''001'')]]"

definition ex_query_loader :: "nat loader" where
  "ex_query_loader =
     getDataLoader (ex_remote\<lparr>find_records := ex_find_one\<rparr>) [] ex_names ex_query_records"

definition ex_query_state :: "nat state" where
  "ex_query_state = ex_state\<lparr>sobject2records := ex_query_records\<rparr>"

text \<open>Reading the result of a run: whether it returned without an error, and its last state.\<close>

definition succeeded :: "((error + 'a) \<times> 's) option \<Rightarrow> bool" where
  "succeeded x = (case x of Some (Inr v, st) \<Rightarrow> True | _ \<Rightarrow> False)"

definition final_state :: "((error + 'a) \<times> 's) option \<Rightarrow> 's" where
  "final_state x = snd (the x)"

section \<open>Properties of the relation graph\<close>

text \<open>
  C5. For collections \<open>P\<close> and \<open>C\<close> of the loader, \<open>C\<close> is listed as a child of \<open>P\<close>
  exactly when \<open>P\<close> is listed as a parent of \<open>C\<close>, exactly when \<open>C \<noteq> P\<close> and the
  serialized records of \<open>C\<close> contain the quoted \<open>id\<close> of some record of \<open>P\<close>; no
  collection is its own parent or child.
\<close>

theorem relation_graph_iff:
  assumes "P \<in> set names" and "C \<in> set names"
  shows "(C \<in> set (parent2childObjects names recs P)
            \<longleftrightarrow> P \<in> set (child2parentSObjects names recs C))
       \<and> (C \<in> set (parent2childObjects names recs P)
            \<longleftrightarrow> C \<noteq> P \<and>
                (\<exists>r \<in> set (recs P).
                   sublist ([dquote] @ to_text (get_prop r ''id'') @ [dquote])
                     (stringify (JArr (map JObj (recs C))))))
       \<and> P \<notin> set (parent2childObjects names recs P)
       \<and> P \<notin> set (child2parentSObjects names recs P)"
  using assms
  by (auto simp: parent2childObjects_def child2parentSObjects_def references_def
        index_of_found_def list_ex_iff)

theorem relation_graph_iff_witness:
  "''Parent'' \<in> set ex_names \<and> ''Child'' \<in> set ex_names
   \<and> ''Child'' \<in> set (parent2childObjects ex_names ex_records ''Parent'')
   \<and> ''Parent'' \<in> set (child2parentSObjects ex_names ex_records ''Child'')
   \<and> ''Parent'' \<notin> set (parent2childObjects ex_names ex_records ''Parent'')"
proof -
  have a: "''Parent'' \<in> set ex_names" and b: "''Child'' \<in> set ex_names"
    by (simp_all add: ex_names_def)
  have c: "''Child'' \<in> set (parent2childObjects ex_names ex_records ''Parent'')"
    by code_simp
  from relation_graph_iff [OF a b, of ex_records] c a b show ?thesis by blast
qed

section \<open>Properties of the embedded-query pattern\<close>

lemma in_lit: "r \<in> set (lit p s) \<longleftrightarrow> (\<exists>x. s = x @ r \<and> map upper x = map upper p)"
proof
  assume "r \<in> set (lit p s)"
  then have "length p \<le> length s" "map upper (take (length p) s) = map upper p" "r = drop (length p) s"
    by (auto simp: lit_def split: if_splits)
  then have "s = take (length p) s @ r \<and> map upper (take (length p) s) = map upper p" by simp
  then show "\<exists>x. s = x @ r \<and> map upper x = map upper p" by blast
next
  assume "\<exists>x. s = x @ r \<and> map upper x = map upper p"
  then obtain x where x: "s = x @ r" "map upper x = map upper p" by blast
  then have "length x = length p" using map_eq_imp_length_eq by blast
  with x show "r \<in> set (lit p s)" by (simp add: lit_def)
qed

lemma in_spaces:
  "r \<in> set (spaces s) \<longleftrightarrow> (\<exists>w. w \<noteq> [] \<and> (\<forall>c\<in>set w. is_space c) \<and> s = w @ r)"
proof (induction s)
  case Nil
  show ?case by simp
next
  case (Cons c s)
  show ?case
  proof (cases "is_space c")
    case False
    then show ?thesis by (auto simp: Cons_eq_append_conv)
  next
    case True
    show ?thesis
    proof
      assume "r \<in> set (spaces (c # s))"
      with True have "r \<in> set (spaces s) \<or> r = s" by auto
      then show "\<exists>w. w \<noteq> [] \<and> (\<forall>c\<in>set w. is_space c) \<and> c # s = w @ r"
      proof
        assume "r \<in> set (spaces s)"
        with Cons.IH obtain w where "w \<noteq> []" "\<forall>c\<in>set w. is_space c" "s = w @ r" by blast
        with True have "c # w \<noteq> [] \<and> (\<forall>d\<in>set (c # w). is_space d) \<and> c # s = (c # w) @ r" by simp
        then show ?thesis by blast
      next
        assume "r = s"
        with True have "[c] \<noteq> [] \<and> (\<forall>d\<in>set [c]. is_space d) \<and> c # s = [c] @ r" by simp
        then show ?thesis by blast
      qed
    next
      assume "\<exists>w. w \<noteq> [] \<and> (\<forall>c\<in>set w. is_space c) \<and> c # s = w @ r"
      then obtain w where w: "w \<noteq> []" "\<forall>c\<in>set w. is_space c" "c # s = w @ r" by blast
      then obtain w' where w': "w = c # w'" "s = w' @ r" by (cases w) auto
      show "r \<in> set (spaces (c # s))"
      proof (cases "w' = []")
        case True
        with w' \<open>is_space c\<close> show ?thesis by simp
      next
        case False
        with w w' Cons.IH have "r \<in> set (spaces s)" by auto
        with \<open>is_space c\<close> show ?thesis by simp
      qed
    qed
  qed
qed

lemma in_lazy_dots:
  "(g, r) \<in> set (lazy_dots s) \<longleftrightarrow> (s = g @ r \<and> (\<forall>c\<in>set g. \<not> line_terminator c))"
proof (induction s arbitrary: g)
  case Nil
  show ?case by auto
next
  case (Cons c s)
  show ?case
  proof (cases g)
    case Nil
    then show ?thesis by auto
  next
    case (Cons d g')
    have "(d # g', r) \<in> set (lazy_dots (c # s))
            \<longleftrightarrow> \<not> line_terminator c \<and> d = c \<and> (g', r) \<in> set (lazy_dots s)"
      by (force simp: image_iff)
    with Cons.IH [of g'] Cons show ?thesis by auto
  qed
qed

lemma lit_append: "r \<in> set (lit p s) \<Longrightarrow> r @ t \<in> set (lit p (s @ t))"
  unfolding in_lit by auto

lemma spaces_append: "r \<in> set (spaces s) \<Longrightarrow> r @ t \<in> set (spaces (s @ t))"
  unfolding in_spaces by auto

lemma lazy_dots_append: "(g, r) \<in> set (lazy_dots s) \<Longrightarrow> (g, r @ t) \<in> set (lazy_dots (s @ t))"
  unfolding in_lazy_dots by auto

lemma lazy_dots_extend:
  "(g, []) \<in> set (lazy_dots s) \<Longrightarrow> \<forall>c\<in>set t. \<not> line_terminator c
     \<Longrightarrow> (g @ t, []) \<in> set (lazy_dots (s @ t))"
  unfolding in_lazy_dots by auto

lemma in_soql_tail:
  "r \<in> set (soql_tail s) \<longleftrightarrow>
     (s = [] \<and> r = [] \<or> (\<exists>a b. a \<in> set (spaces s) \<and> b \<in> set (lit ''ORDER BY'' a) \<and> r \<in> set (spaces b)))"
  by (auto simp: soql_tail_def)

lemma soql_tail_append:
  "r \<in> set (soql_tail s) \<Longrightarrow> s \<noteq> [] \<Longrightarrow> r @ t \<in> set (soql_tail (s @ t))"
  unfolding in_soql_tail using lit_append spaces_append by blast

lemma in_bind: "y \<in> set (concat (map f xs)) \<longleftrightarrow> (\<exists>x. x \<in> set xs \<and> y \<in> set (f x))"
  by auto

lemma in_const_map: "y \<in> set (map (\<lambda>x. c) xs) \<longleftrightarrow> (\<exists>x. x \<in> set xs \<and> y = c)"
  by auto

lemma in_soql_at:
  "(sel, frm, whr) \<in> set (soql_at s) \<longleftrightarrow>
     (\<exists>s1 s2 s3 s4 s5 s6 s7 s8 s9 s10 s11 s12.
        s1 \<in> set (lit ''SELECT'' s) \<and> s2 \<in> set (spaces s1) \<and> (sel, s3) \<in> set (lazy_dots s2) \<and>
        s4 \<in> set (spaces s3) \<and> s5 \<in> set (lit ''FROM'' s4) \<and> s6 \<in> set (spaces s5) \<and>
        (frm, s7) \<in> set (lazy_dots s6) \<and>
        s8 \<in> set (spaces s7) \<and> s9 \<in> set (lit ''WHERE'' s8) \<and> s10 \<in> set (spaces s9) \<and>
        (whr, s11) \<in> set (lazy_dots s10) \<and> s12 \<in> set (soql_tail s11))"
  unfolding soql_at_def
  apply (simp only: in_bind in_const_map split_paired_Ex prod.case prod.inject)
  apply (rule iffI)
   apply (elim exE conjE)
   apply (simp only:)
   apply blast
  apply (elim exE conjE)
  apply blast
  done

lemma soql_at_append:
  assumes "m \<in> set (soql_at s)" and "\<forall>c\<in>set t. \<not> line_terminator c"
  shows "\<exists>m'. m' \<in> set (soql_at (s @ t))"
proof -
  obtain sel frm whr where m: "m = (sel, frm, whr)" by (cases m) auto
  from assms(1) [unfolded m in_soql_at]
  obtain s1 s2 s3 s4 s5 s6 s7 s8 s9 s10 s11 s12 where
    h: "s1 \<in> set (lit ''SELECT'' s)" "s2 \<in> set (spaces s1)" "(sel, s3) \<in> set (lazy_dots s2)"
       "s4 \<in> set (spaces s3)" "s5 \<in> set (lit ''FROM'' s4)" "s6 \<in> set (spaces s5)"
       "(frm, s7) \<in> set (lazy_dots s6)"
       "s8 \<in> set (spaces s7)" "s9 \<in> set (lit ''WHERE'' s8)" "s10 \<in> set (spaces s9)"
       "(whr, s11) \<in> set (lazy_dots s10)" "s12 \<in> set (soql_tail s11)"
    by blast
  have pre:
    "s1 @ t \<in> set (lit ''SELECT'' (s @ t))" "s2 @ t \<in> set (spaces (s1 @ t))"
    "(sel, s3 @ t) \<in> set (lazy_dots (s2 @ t))"
    "s4 @ t \<in> set (spaces (s3 @ t))" "s5 @ t \<in> set (lit ''FROM'' (s4 @ t))"
    "s6 @ t \<in> set (spaces (s5 @ t))" "(frm, s7 @ t) \<in> set (lazy_dots (s6 @ t))"
    "s8 @ t \<in> set (spaces (s7 @ t))" "s9 @ t \<in> set (lit ''WHERE'' (s8 @ t))"
    "s10 @ t \<in> set (spaces (s9 @ t))"
    using h by (simp_all add: lit_append spaces_append lazy_dots_append)
  show ?thesis
  proof (cases "s11 = []")
    case True
    with h(11) assms(2) have "(whr @ t, []) \<in> set (lazy_dots (s10 @ t))"
      by (simp add: lazy_dots_extend)
    moreover have "[] \<in> set (soql_tail [])" by (simp add: soql_tail_def)
    ultimately have "(sel, frm, whr @ t) \<in> set (soql_at (s @ t))"
      unfolding in_soql_at using pre by blast
    then show ?thesis by blast
  next
    case False
    with h(12) have "s12 @ t \<in> set (soql_tail (s11 @ t))" by (rule soql_tail_append)
    moreover from h(11) have "(whr, s11 @ t) \<in> set (lazy_dots (s10 @ t))"
      by (rule lazy_dots_append)
    ultimately have "(sel, frm, whr) \<in> set (soql_at (s @ t))"
      unfolding in_soql_at using pre by blast
    then show ?thesis by blast
  qed
qed

lemma soql_match_None_iff: "soql_match s = None \<longleftrightarrow> (\<forall>p r. s = p @ r \<longrightarrow> soql_at r = [])"
proof (induction s)
  case Nil
  show ?case by (simp add: soql_match.simps split: list.splits)
next
  case (Cons c s)
  have "soql_match (c # s) = None \<longleftrightarrow> soql_at (c # s) = [] \<and> soql_match s = None"
    by (subst soql_match.simps) (simp split: list.splits)
  also have "\<dots> \<longleftrightarrow> soql_at (c # s) = [] \<and> (\<forall>p r. s = p @ r \<longrightarrow> soql_at r = [])"
    using Cons.IH by simp
  also have "\<dots> \<longleftrightarrow> (\<forall>p r. c # s = p @ r \<longrightarrow> soql_at r = [])"
    by (auto simp: Cons_eq_append_conv)
  finally show ?case .
qed

lemma soql_match_embedded:
  assumes "soql_match q \<noteq> None" and "\<forall>c\<in>set suf. \<not> line_terminator c"
  shows "soql_match (pre @ q @ suf) \<noteq> None"
proof -
  from assms(1) obtain p r where q: "q = p @ r" and r: "soql_at r \<noteq> []"
    unfolding soql_match_None_iff by blast
  from r obtain m where "m \<in> set (soql_at r)" by (cases "soql_at r") auto
  with assms(2) obtain m' where "m' \<in> set (soql_at (r @ suf))"
    using soql_at_append by blast
  then have "soql_at (r @ suf) \<noteq> []" by auto
  moreover have "pre @ q @ suf = (pre @ p) @ (r @ suf)" using q by simp
  ultimately show ?thesis unfolding soql_match_None_iff by blast
qed

text \<open>
  C10, as amended. A string that contains, anywhere, a part in which the pattern has a
  match, and that has no line terminator after that part, is resolved by a remote
  lookup: the pattern has a match in the whole string, and the value is what the
  lookup with the captures of that match gives, the \<open>Id\<close> of its first result or the
  failure.
\<close>

theorem embedded_query_anywhere:
  assumes "soql_match q \<noteq> None" and "\<forall>c\<in>set suf. \<not> line_terminator c"
  shows "\<exists>soqlSelect soqlFrom soqlWhere.
           soql_match (pre @ q @ suf) = Some (soqlSelect, soqlFrom, soqlWhere)
         \<and> getFieldValue fnd m (JStr (pre @ q @ suf)) =
             (case fnd soqlFrom soqlWhere soqlSelect 1 of
                Inl x \<Rightarrow> Inl (Rejected x)
              | Inr [] \<Rightarrow> Inl (LookupNotFound (pre @ q @ suf))
              | Inr (record # rest) \<Rightarrow> Inr (get_prop record ''Id''))"
proof -
  from soql_match_embedded [OF assms, of pre]
  obtain a b c where "soql_match (pre @ q @ suf) = Some (a, b, c)" by auto
  then show ?thesis by simp
qed

theorem embedded_query_anywhere_witness:
  "soql_match ''SELECT a FROM b WHERE c'' \<noteq> None
   \<and> list_all (\<lambda>c. \<not> line_terminator c) '' !''
   \<and> getFieldValue (ex_find 0 Standard) no_ids (JStr (''see '' @ ''SELECT a FROM b WHERE c'' @ '' !''))
       = Inl (LookupNotFound (''see '' @ ''SELECT a FROM b WHERE c'' @ '' !''))"
proof -
  have a: "soql_match ''SELECT a FROM b WHERE c'' \<noteq> None" by code_simp
  have b: "\<forall>c\<in>set '' !''. \<not> line_terminator c" by code_simp
  from embedded_query_anywhere [OF a b, of "''see ''" "ex_find 0 Standard" no_ids]
  have "getFieldValue (ex_find 0 Standard) no_ids (JStr (''see '' @ ''SELECT a FROM b WHERE c'' @ '' !''))
       = Inl (LookupNotFound (''see '' @ ''SELECT a FROM b WHERE c'' @ '' !''))"
    by (auto simp: ex_find_def)
  with a b show ?thesis by (simp add: list_all_iff)
qed

text \<open>
  C10 as stated fails when a line terminator follows the query: the pattern has no
  match in the string, which is then returned as it is.
\<close>

theorem embedded_query_counterexample:
  "soql_match ''SELECT a FROM b WHERE c'' = Some (''a'', ''b'', ''c'')
   \<and> soql_match (''SELECT a FROM b WHERE c'' @ [char_of (10 :: nat)] @ ''d'') = None
   \<and> getFieldValue (ex_find 0 Standard) no_ids
        (JStr (''SELECT a FROM b WHERE c'' @ [char_of (10 :: nat)] @ ''d''))
      = Inr (JStr (''SELECT a FROM b WHERE c'' @ [char_of (10 :: nat)] @ ''d''))"
  by code_simp

section \<open>Properties of the field resolver\<close>

text \<open>
  C4, as amended. The resolver follows its policy in order: a nested record is resolved
  field by field; null, a boolean and a number are returned unchanged; a string in
  which the pattern has a match is resolved by a remote find limited to one result,
  to the \<open>Id\<close> of the first result, and fails with \<open>LookupNotFound\<close> carrying the
  string when there is none; any other string that is a key of the identity map with
  a non-empty new identifier is replaced by it; a key mapped to the empty identifier
  is returned unchanged; a string that is no key and is not the name of a member
  every plain object inherits is returned unchanged. Of a string that is no key and
  is such a name nothing is said.
\<close>

theorem resolve_policy:
  "getFieldValue fnd m (JObj r) =
     (case updateFieldValues fnd m r of Inl e \<Rightarrow> Inl e | Inr r' \<Rightarrow> Inr (JObj r'))
   \<and> (updateFieldValues fnd m r = Inr r' \<longrightarrow>
        list_all2 (\<lambda>(k, v) (k', v'). k' = k \<and> getFieldValue fnd m v = Inr v') r r')
   \<and> getFieldValue fnd m JNull = Inr JNull
   \<and> getFieldValue fnd m (JBool b) = Inr (JBool b)
   \<and> getFieldValue fnd m (JNum i) = Inr (JNum i)
   \<and> (soql_match q = Some (soqlSelect, soqlFrom, soqlWhere) \<longrightarrow>
        getFieldValue fnd m (JStr q) =
          (case fnd soqlFrom soqlWhere soqlSelect 1 of
             Inl x \<Rightarrow> Inl (Rejected x)
           | Inr [] \<Rightarrow> Inl (LookupNotFound q)
           | Inr (record # rest) \<Rightarrow> Inr (get_prop record ''Id'')))
   \<and> (soql_match k = None \<longrightarrow> m k = Some newId \<longrightarrow> newId \<noteq> [] \<longrightarrow>
        getFieldValue fnd m (JStr k) = Inr (JStr newId))
   \<and> (soql_match k0 = None \<longrightarrow> m k0 = Some [] \<longrightarrow>
        getFieldValue fnd m (JStr k0) = Inr (JStr k0))
   \<and> (soql_match s = None \<longrightarrow> m s = None \<longrightarrow> inherited s = None \<longrightarrow>
        getFieldValue fnd m (JStr s) = Inr (JStr s))"
proof -
  have fields: "updateFieldValues fnd m r = Inr r' \<Longrightarrow>
        list_all2 (\<lambda>(k, v) (k', v'). k' = k \<and> getFieldValue fnd m v = Inr v') r r'"
    by (induction r arbitrary: r') (auto split: sum.splits)
  show ?thesis
    using fields by (auto simp: lookup_id_def)
qed

theorem resolve_policy_witness:
  "updateFieldValues (ex_find 0 Standard) ex_ids [(''parentRef'', JStr ''p1'')]
     = Inr [(''parentRef'', JStr ''Parent0'')]
   \<and> list_all2 (\<lambda>(k, v) (k', v'). k' = k \<and> getFieldValue (ex_find 0 Standard) ex_ids v = Inr v')
        [(''parentRef'', JStr ''p1'')] [(''parentRef'', JStr ''Parent0'')]
   \<and> soql_match ''select Id from Account where Name=Acme order by Name''
        = Some (''Id'', ''Account'', ''Name=Acme'')
   \<and> getFieldValue (ex_find 0 Standard) ex_ids
        (JStr ''select Id from Account where Name=Acme order by Name'')
        = Inl (LookupNotFound ''select Id from Account where Name=Acme order by Name'')
   \<and> soql_match ''p1'' = None \<and> ex_ids ''p1'' = Some ''Parent0'' \<and> ''Parent0'' \<noteq> []
   \<and> getFieldValue (ex_find 0 Standard) ex_ids (JStr ''p1'') = Inr (JStr ''Parent0'')
   \<and> soql_match ''p0'' = None \<and> ex_ids ''p0'' = Some []
   \<and> getFieldValue (ex_find 0 Standard) ex_ids (JStr ''p0'') = Inr (JStr ''p0'')
   \<and> soql_match ''Acme'' = None \<and> ex_ids ''Acme'' = None \<and> inherited ''Acme'' = None
   \<and> getFieldValue (ex_find 0 Standard) ex_ids (JStr ''Acme'') = Inr (JStr ''Acme'')"
proof -
  have h1: "updateFieldValues (ex_find 0 Standard) ex_ids [(''parentRef'', JStr ''p1'')]
     = Inr [(''parentRef'', JStr ''Parent0'')]"
    by code_simp
  have h2: "soql_match ''select Id from Account where Name=Acme order by Name''
        = Some (''Id'', ''Account'', ''Name=Acme'')"
    by code_simp
  have h3: "soql_match ''p1'' = None" "ex_ids ''p1'' = Some ''Parent0''" "''Parent0'' \<noteq> []"
    by code_simp+
  have h4: "soql_match ''p0'' = None" "ex_ids ''p0'' = Some []"
    by code_simp+
  have h6: "soql_match ''Acme'' = None" "ex_ids ''Acme'' = None" "inherited ''Acme'' = None"
    by code_simp+
  have f: "ex_find 0 Standard ''Account'' ''Name=Acme'' ''Id'' 1 = Inr []"
    by (simp add: ex_find_def)
  note p = resolve_policy [of "ex_find 0 Standard" ex_ids "[(''parentRef'', JStr ''p1'')]"
      "[(''parentRef'', JStr ''Parent0'')]" _ _
      "''select Id from Account where Name=Acme order by Name''" "''Id''" "''Account''" "''Name=Acme''"
      "''p1''" "''Parent0''" "''p0''" "''Acme''"]
  from p h1 have c1: "list_all2 (\<lambda>(k, v) (k', v'). k' = k \<and> getFieldValue (ex_find 0 Standard) ex_ids v = Inr v')
        [(''parentRef'', JStr ''p1'')] [(''parentRef'', JStr ''Parent0'')]"
    by blast
  from p h2 have "getFieldValue (ex_find 0 Standard) ex_ids
        (JStr ''select Id from Account where Name=Acme order by Name'') =
        (case ex_find 0 Standard ''Account'' ''Name=Acme'' ''Id'' 1 of
             Inl x \<Rightarrow> Inl (Rejected x)
           | Inr [] \<Rightarrow> Inl (LookupNotFound ''select Id from Account where Name=Acme order by Name'')
           | Inr (record # rest) \<Rightarrow> Inr (get_prop record ''Id''))"
    by blast
  then have c2: "getFieldValue (ex_find 0 Standard) ex_ids
        (JStr ''select Id from Account where Name=Acme order by Name'')
        = Inl (LookupNotFound ''select Id from Account where Name=Acme order by Name'')"
    by (simp only: f sum.case list.case)
  from p h3 have c3: "getFieldValue (ex_find 0 Standard) ex_ids (JStr ''p1'') = Inr (JStr ''Parent0'')"
    by blast
  from p h4 have c4: "getFieldValue (ex_find 0 Standard) ex_ids (JStr ''p0'') = Inr (JStr ''p0'')"
    by blast
  from p h6 have c6: "getFieldValue (ex_find 0 Standard) ex_ids (JStr ''Acme'') = Inr (JStr ''Acme'')"
    by blast
  from h1 h2 h3 h4 h6 c1 c2 c3 c4 c6 show ?thesis by blast
qed

text \<open>
  C4 as stated fails on a key of the identity map that is mapped to the empty
  identifier: the key is returned, not the identifier.
\<close>

theorem resolve_policy_counterexample:
  "soql_match ''p0'' = None \<and> ex_ids ''p0'' = Some []
   \<and> getFieldValue (ex_find 0 Standard) ex_ids (JStr ''p0'') = Inr (JStr ''p0'')
   \<and> getFieldValue (ex_find 0 Standard) ex_ids (JStr ''p0'') \<noteq> Inr (JStr [])"
  by code_simp

section \<open>Properties of deletion\<close>

text \<open>
  C6, as amended. After the loop over the children, the deletion of a collection ends
  as a skip without error exactly when reading its identifier file fails, whatever the
  failure: no file, a file that cannot be read, or a file that is not JSON. No failure
  of that read is passed on.
\<close>

theorem delete_skips_iff:
  "delete_records L C st = (Inr (), emit (DeleteSkipped C) st)
     \<longleftrightarrow> id_files st C \<in> {Absent, Denied, Corrupt}"
proof (cases "id_files st C")
  case (Ids ids)
  have "trace (snd (delete_records L C st)) \<noteq> trace (emit (DeleteSkipped C) st)"
    using Ids
    by (auto simp: delete_records_def readJSONFile_def readFile_def emit_def Let_def
          split: sum.splits prod.splits list.splits)
  then have "delete_records L C st \<noteq> (Inr (), emit (DeleteSkipped C) st)"
    by (metis snd_conv)
  with Ids show ?thesis by simp
qed (simp_all add: delete_records_def readJSONFile_def readFile_def)

text \<open>
  C6 as stated fails on files that exist and cannot be read: the read is rejected with
  \<open>EACCES\<close>, the collection is skipped and the whole deletion succeeds.
\<close>

theorem delete_skips_counterexample:
  "readJSONFile ''Parent'' (id_files ex_denied_state) = Inl EACCES
   \<and> succeeded (deleteLoadedData 3 ex_loader ex_denied_state)
   \<and> DeleteSkipped ''Parent'' \<in> set (trace (final_state (deleteLoadedData 3 ex_loader ex_denied_state)))"
  by code_simp

text \<open>
  C7. On the instance as a load leaves it, a deletion succeeds and both identifier
  files are still there; a second deletion destroys again instead of skipping.
\<close>

theorem delete_keeps_id_files:
  "succeeded (deleteLoadedData 3 ex_loader ex_loaded_state)
   \<and> id_files (final_state (deleteLoadedData 3 ex_loader ex_loaded_state)) ''Child'' = Ids [''Child1'']
   \<and> id_files (final_state (deleteLoadedData 3 ex_loader ex_loaded_state)) ''Parent'' = Ids [''Parent0'']
   \<and> DestroyCalled ''Child'' \<in> set (trace (final_state (deleteLoadedData 3 ex_loader
         ((final_state (deleteLoadedData 3 ex_loader ex_loaded_state))\<lparr>trace := []\<rparr>))))
   \<and> DeleteSkipped ''Child'' \<notin> set (trace (final_state (deleteLoadedData 3 ex_loader
         ((final_state (deleteLoadedData 3 ex_loader ex_loaded_state))\<lparr>trace := []\<rparr>))))"
  by code_simp

section \<open>Properties of loading\<close>

text \<open>
  C8. On the instance with identifier files that cannot be written, every write fails
  and the load succeeds all the same; the files are as they were.
\<close>

theorem load_ignores_write_failure:
  "fst (writeFile ''Parent'' [''Parent0''] (id_files ex_denied_state)) = Inl EACCES
   \<and> succeeded (loadData 3 ex_loader ex_denied_state)
   \<and> id_files (final_state (loadData 3 ex_loader ex_denied_state)) ''Parent'' = Denied
   \<and> id_files (final_state (loadData 3 ex_loader ex_denied_state)) ''Child'' = Denied"
  by code_simp

text \<open>
  C9 as stated fails: a load replaces the stored records of a collection by the
  resolved records without their \<open>id\<close>.
\<close>

theorem load_changes_records_counterexample:
  "succeeded (loadData 3 ex_loader ex_state)
   \<and> sobject2records ex_state ''Child'' = [[(''id'', JStr ''c1''), (''parentRef'', JStr ''p1'')]]
   \<and> sobject2records (final_state (loadData 3 ex_loader ex_state)) ''Child''
       = [[(''parentRef'', JStr ''Parent0'')]]"
  by code_simp

section \<open>Properties of the walk\<close>

lemma load_is_walk:
  "loadSObjectData n L = walk LoadCalled LoadStarted (child2parent L) (load_records L) n"
proof (induction n)
  case 0
  show ?case by (intro ext) simp
next
  case (Suc n)
  show ?case by (intro ext) (simp add: Suc Let_def cong: option.case_cong if_cong)
qed

lemma delete_is_walk:
  "deleteLoadedSObjectData n L = walk DeleteCalled DeleteStarted (parent2child L) (delete_records L) n"
proof (induction n)
  case 0
  show ?case by (intro ext) simp
next
  case (Suc n)
  show ?case by (intro ext) (simp add: Suc Let_def cong: option.case_cong if_cong)
qed

lemma memo_emit [simp]: "memo (emit e st) = memo st"
  by (simp add: emit_def)

lemma trace_emit [simp]: "trace (emit e st) = trace st @ [e]"
  by (simp add: emit_def)

lemma pending_emit [simp]: "pending (emit e st) = pending st"
  by (simp add: emit_def)

lemma descent_emit [simp]: "descent (emit e st) = descent st"
  by (simp add: emit_def)

lemma for_each_mono:
  assumes "\<And>x st r. x \<in> set xs \<Longrightarrow> f x st = Some r \<Longrightarrow> g x st = Some r"
    and "for_each f xs st = Some r"
  shows "for_each g xs st = Some r"
  using assms
proof (induction xs arbitrary: st)
  case Nil
  then show ?case by simp
next
  case (Cons x xs)
  from Cons.prems(2) obtain o1 s1 where f: "f x st = Some (o1, s1)"
    by (cases "f x st") auto
  have g: "g x st = Some (o1, s1)"
    using Cons.prems(1) [of x st "(o1, s1)"] f by simp
  show ?case
  proof (cases o1)
    case (Inl e)
    from Cons.prems(2) have "r = (Inl e, s1)" by (simp add: f Inl)
    then show ?thesis by (simp add: g Inl)
  next
    case (Inr u)
    from Cons.prems(2) have "for_each f xs s1 = Some r" by (simp add: f Inr)
    moreover have "\<And>y st r. y \<in> set xs \<Longrightarrow> f y st = Some r \<Longrightarrow> g y st = Some r"
      using Cons.prems(1) by simp
    ultimately have "for_each g xs s1 = Some r" using Cons.IH by blast
    then show ?thesis by (simp add: g Inr)
  qed
qed

text \<open>
  The four ways a call returns: the name is in the cache; it is pending and not in
  the cache yet; or the function under the memoized one runs, and fails in the loop
  over the neighbours or comes to its body.
\<close>

lemma walk_cases:
  assumes "walk c s nb b (Suc n) x st = Some (r, st')"
  obtains
    (hit) "memo st x = Some r" "st' = (emit (c x) st)\<lparr>descent := 0\<rparr>"
  | (exhausted) "memo st x = None" "x \<in> set (pending st)" "r = Inl StackExhausted"
      "st' = (emit (c x) st)\<lparr>descent := 0\<rparr>"
  | (failed) e s2 where "memo st x = None" "x \<notin> set (pending st)"
      "for_each (walk c s nb b n) (nb x)
         ((emit (s x) (emit (c x) st))\<lparr>pending := x # pending st, descent := Suc (descent st)\<rparr>)
           = Some (Inl e, s2)"
      "r = Inl e"
      "st' = s2\<lparr>memo := (memo s2)(x \<mapsto> Inl e), pending := pending st, descent := 0\<rparr>"
  | (ran) s2 s3 where "memo st x = None" "x \<notin> set (pending st)"
      "for_each (walk c s nb b n) (nb x)
         ((emit (s x) (emit (c x) st))\<lparr>pending := x # pending st, descent := Suc (descent st)\<rparr>)
           = Some (Inr (), s2)"
      "b x s2 = (r, s3)"
      "st' = s3\<lparr>memo := (memo s3)(x \<mapsto> r), pending := pending st, descent := 0\<rparr>"
proof (cases "memo st x")
  case (Some outcome)
  with assms have "r = outcome" "st' = (emit (c x) st)\<lparr>descent := 0\<rparr>"
    by (simp_all add: Let_def)
  with Some show ?thesis by (intro hit) simp_all
next
  case None
  show ?thesis
  proof (cases "x \<in> set (take (descent st) (pending st))")
    case True
    with assms None have "r = Inl StackExhausted" "st' = (emit (c x) st)\<lparr>descent := 0\<rparr>"
      by (simp_all add: Let_def)
    moreover from True have "x \<in> set (pending st)" by (rule in_set_takeD)
    ultimately show ?thesis using None by (intro exhausted)
  next
    case nt: False
    show ?thesis
    proof (cases "x \<in> set (pending st)")
      case True
      with assms None nt show ?thesis by (simp add: Let_def)
    next
      case False
      let ?st2 = "(emit (s x) (emit (c x) st))\<lparr>pending := x # pending st, descent := Suc (descent st)\<rparr>"
      from assms None nt False obtain o2 s2 where
        loop: "for_each (walk c s nb b n) (nb x) ?st2 = Some (o2, s2)"
        by (cases "for_each (walk c s nb b n) (nb x) ?st2") (auto simp: Let_def)
      show ?thesis
      proof (cases o2)
        case (Inl e)
        with assms None nt False loop
        have r: "r = Inl e"
          and st': "st' = s2\<lparr>memo := (memo s2)(x \<mapsto> Inl e), pending := pending st, descent := 0\<rparr>"
          by (auto simp: Let_def)
        from loop Inl
        have "for_each (walk c s nb b n) (nb x) ?st2 = Some (Inl e, s2)" by simp
        from failed [OF None False this r st'] show ?thesis .
      next
        case (Inr u)
        obtain o3 s3 where b: "b x s2 = (o3, s3)" by (cases "b x s2")
        with assms None nt False loop Inr
        have r: "r = o3"
          and st': "st' = s3\<lparr>memo := (memo s3)(x \<mapsto> r), pending := pending st, descent := 0\<rparr>"
          by (auto simp: Let_def)
        from loop Inr
        have l: "for_each (walk c s nb b n) (nb x) ?st2 = Some (Inr (), s2)" by simp
        from b r have "b x s2 = (r, s3)" by simp
        from ran [OF None False l this st'] show ?thesis .
      qed
    qed
  qed
qed

lemma walk_mono:
  "walk c s nb b n x st = Some r \<Longrightarrow> n \<le> m \<Longrightarrow> walk c s nb b m x st = Some r"
proof (induction n arbitrary: m x st r)
  case 0
  then show ?case by simp
next
  case (Suc n)
  from Suc.prems(2) obtain m' where m: "m = Suc m'" and le: "n \<le> m'"
    by (cases m) auto
  have loop: "for_each (walk c s nb b m') xs st = Some r"
    if "for_each (walk c s nb b n) xs st = Some r" for xs st r
  proof (rule for_each_mono [OF _ that])
    fix y st' r'
    assume "walk c s nb b n y st' = Some r'"
    then show "walk c s nb b m' y st' = Some r'" using Suc.IH le by blast
  qed
  show ?case
  proof (cases "memo st x = None \<and> x \<notin> set (pending st)")
    case False
    with Suc.prems(1) m show ?thesis
      by (auto simp: Let_def split: option.splits if_splits dest: in_set_takeD)
  next
    case True
    then have nt: "x \<notin> set (take (descent st) (pending st))" by (auto dest: in_set_takeD)
    let ?st2 = "(emit (s x) (emit (c x) st))\<lparr>pending := x # pending st, descent := Suc (descent st)\<rparr>"
    from Suc.prems(1) True nt obtain r2 where
      r2: "for_each (walk c s nb b n) (nb x) ?st2 = Some r2"
      by (cases "for_each (walk c s nb b n) (nb x) ?st2") (auto simp: Let_def)
    from loop [OF r2] r2 Suc.prems(1) True nt m show ?thesis
      by (simp add: Let_def)
  qed
qed

lemma walk_pending:
  assumes "walk c s nb b n x st = Some (r, st')"
  shows "pending st' = pending st" and "descent st' = 0"
proof -
  from assms obtain k where "n = Suc k" by (cases n) auto
  with assms have "walk c s nb b (Suc k) x st = Some (r, st')" by simp
  then have "pending st' = pending st \<and> descent st' = 0"
    by (cases rule: walk_cases) simp_all
  then show "pending st' = pending st" and "descent st' = 0" by simp_all
qed

lemma for_each_total:
  assumes tot: "\<And>x st. x \<in> set xs \<Longrightarrow> pending st = p \<Longrightarrow> \<exists>n r. walk c s nb b n x st = Some r"
    and p: "pending st = p"
  shows "\<exists>n r. for_each (walk c s nb b n) xs st = Some r"
  using assms
proof (induction xs arbitrary: st)
  case Nil
  show ?case by simp
next
  case (Cons x xs)
  have "\<exists>n r. walk c s nb b n x st = Some r" using Cons.prems by simp
  then obtain n1 o1 s1 where n1: "walk c s nb b n1 x st = Some (o1, s1)"
    by auto
  have p1: "pending s1 = p" using walk_pending(1) [OF n1] Cons.prems(2) by simp
  show ?case
  proof (cases o1)
    case (Inl e)
    with n1 have "for_each (walk c s nb b n1) (x # xs) st = Some (Inl e, s1)" by simp
    then show ?thesis by blast
  next
    case (Inr u)
    have "\<exists>n r. for_each (walk c s nb b n) xs s1 = Some r"
      using Cons.IH [OF _ p1] Cons.prems(1) by simp
    then obtain n2 r2 where n2: "for_each (walk c s nb b n2) xs s1 = Some r2"
      by auto
    let ?n = "max n1 n2"
    have "walk c s nb b ?n x st = Some (o1, s1)"
      using walk_mono [OF n1] by simp
    moreover have "for_each (walk c s nb b ?n) xs s1 = Some r2"
    proof (rule for_each_mono [OF _ n2])
      fix y st' r'
      assume "walk c s nb b n2 y st' = Some r'"
      then show "walk c s nb b ?n y st' = Some r'" by (rule walk_mono) simp
    qed
    ultimately have "for_each (walk c s nb b ?n) (x # xs) st = Some r2"
      using Inr by simp
    then show ?thesis by blast
  qed
qed

text \<open>
  When the neighbour relation is well-founded, a call returns if the depth allowed is
  large enough, provided every pending collection was reached from the one called,
  as it is when the pending collections are the chain of the calls that wait.
\<close>

lemma walk_total:
  assumes wf: "wf (calls nb)" and reached: "\<forall>y\<in>set (pending st). (x, y) \<in> (calls nb)\<^sup>+"
  shows "\<exists>n r. walk c s nb b n x st = Some r"
  using wf reached
proof (induction x arbitrary: st rule: wf_induct_rule)
  case (less x)
  show ?case
  proof (cases "memo st x")
    case (Some outcome)
    then have "walk c s nb b (Suc 0) x st = Some (outcome, (emit (c x) st)\<lparr>descent := 0\<rparr>)"
      by (simp add: Let_def)
    then show ?thesis by blast
  next
    case None
    have fresh: "x \<notin> set (pending st)"
    proof
      assume "x \<in> set (pending st)"
      with less.prems have "(x, x) \<in> (calls nb)\<^sup>+" by simp
      with wf show False using wf_acyclic by (auto simp: acyclic_def)
    qed
    then have nt: "x \<notin> set (take (descent st) (pending st))" by (auto dest: in_set_takeD)
    let ?st2 = "(emit (s x) (emit (c x) st))\<lparr>pending := x # pending st, descent := Suc (descent st)\<rparr>"
    have "\<exists>n r. walk c s nb b n y st' = Some r"
      if y: "y \<in> set (nb x)" and p: "pending st' = x # pending st" for y st'
    proof (rule less.IH)
      from y show yx: "(y, x) \<in> calls nb" by (simp add: calls_def)
      show "\<forall>z\<in>set (pending st'). (y, z) \<in> (calls nb)\<^sup>+"
      proof
        fix z assume "z \<in> set (pending st')"
        with p have "z = x \<or> z \<in> set (pending st)" by simp
        then show "(y, z) \<in> (calls nb)\<^sup>+"
        proof
          assume "z = x" with yx show ?thesis by auto
        next
          assume "z \<in> set (pending st)"
          with less.prems have "(x, z) \<in> (calls nb)\<^sup>+" by simp
          with yx show ?thesis by (rule_tac trancl_into_trancl2)
        qed
      qed
    qed
    from for_each_total [of "nb x" "x # pending st" c s nb b ?st2, OF this]
    obtain n o2 s2 where
      "for_each (walk c s nb b n) (nb x) ?st2 = Some (o2, s2)"
      by fastforce
    with None fresh nt have "\<exists>r. walk c s nb b (Suc n) x st = Some r"
      by (cases o2) (auto simp: Let_def split: prod.splits)
    then show ?thesis by blast
  qed
qed

lemma walk_post_refl: "walk_post c s st st"
  by (auto simp: walk_post_def)

lemma walk_post_trans:
  assumes "walk_post c s st s1" and "walk_post c s s1 s2"
  shows "walk_post c s st s2"
proof -
  from assms(1) obtain n1 where 1:
    "trace s1 = trace st @ n1" "pending s1 = pending st"
    "\<forall>y. memo st y \<noteq> None \<longrightarrow> memo s1 y = memo st y"
    "\<forall>y. y \<in> set (pending st) \<longrightarrow> memo s1 y = memo st y"
    "\<forall>y. count_list n1 (s y) = (if memo st y = None \<and> memo s1 y \<noteq> None then 1 else 0)"
    "\<forall>y. c y \<in> set n1 \<longrightarrow> memo s1 y \<noteq> None \<or> y \<in> set (pending st)"
    "\<forall>y. s y \<in> set n1 \<longrightarrow> c y \<in> set n1"
    unfolding walk_post_def by blast
  from assms(2) obtain n2 where 2:
    "trace s2 = trace s1 @ n2" "pending s2 = pending s1"
    "\<forall>y. memo s1 y \<noteq> None \<longrightarrow> memo s2 y = memo s1 y"
    "\<forall>y. y \<in> set (pending s1) \<longrightarrow> memo s2 y = memo s1 y"
    "\<forall>y. count_list n2 (s y) = (if memo s1 y = None \<and> memo s2 y \<noteq> None then 1 else 0)"
    "\<forall>y. c y \<in> set n2 \<longrightarrow> memo s2 y \<noteq> None \<or> y \<in> set (pending s1)"
    "\<forall>y. s y \<in> set n2 \<longrightarrow> c y \<in> set n2"
    unfolding walk_post_def by blast
  have t: "trace s2 = trace st @ (n1 @ n2)" using 1(1) 2(1) by simp
  have p: "pending s2 = pending st" using 1(2) 2(2) by simp
  have a: "\<forall>y. memo st y \<noteq> None \<longrightarrow> memo s2 y = memo st y"
    using 1(3) 2(3) by metis
  have k: "\<forall>y. y \<in> set (pending st) \<longrightarrow> memo s2 y = memo st y"
    using 1(4) 2(4) 1(2) by simp
  have d: "\<forall>y. count_list (n1 @ n2) (s y) = (if memo st y = None \<and> memo s2 y \<noteq> None then 1 else 0)"
  proof
    fix y
    show "count_list (n1 @ n2) (s y) = (if memo st y = None \<and> memo s2 y \<noteq> None then 1 else 0)"
    proof (cases "memo st y")
      case (Some v)
      with 1(3) have "memo s1 y = Some v" by simp
      with Some 1(5) 2(5) show ?thesis by simp
    next
      case None
      show ?thesis
      proof (cases "memo s1 y")
        case (Some v)
        with 2(3) have "memo s2 y = Some v" by simp
        with None Some 1(5) 2(5) show ?thesis by simp
      next
        case n: None
        with None 1(5) 2(5) show ?thesis by simp
      qed
    qed
  qed
  have e: "\<forall>y. c y \<in> set (n1 @ n2) \<longrightarrow> memo s2 y \<noteq> None \<or> y \<in> set (pending st)"
  proof (intro allI impI)
    fix y assume "c y \<in> set (n1 @ n2)"
    then have "c y \<in> set n1 \<or> c y \<in> set n2" by simp
    then show "memo s2 y \<noteq> None \<or> y \<in> set (pending st)"
    proof
      assume "c y \<in> set n1"
      with 1(6) have "memo s1 y \<noteq> None \<or> y \<in> set (pending st)" by simp
      with 2(3) show ?thesis by auto
    next
      assume "c y \<in> set n2"
      with 2(6) 1(2) show ?thesis by simp
    qed
  qed
  have f: "\<forall>y. s y \<in> set (n1 @ n2) \<longrightarrow> c y \<in> set (n1 @ n2)"
    using 1(7) 2(7) by auto
  show ?thesis unfolding walk_post_def using t p a k d e f by blast
qed

lemma walk_post_loop:
  assumes step: "\<And>x st r st'. x \<in> set xs \<Longrightarrow> f x st = Some (r, st')
                   \<Longrightarrow> walk_post c s st st' \<and> (r = Inr () \<longrightarrow> memo st' x = Some (Inr ()))"
    and run: "for_each f xs st = Some (r, st')"
  shows "walk_post c s st st' \<and> (r = Inr () \<longrightarrow> (\<forall>x\<in>set xs. memo st' x = Some (Inr ())))"
  using assms
proof (induction xs arbitrary: st)
  case Nil
  then show ?case by (simp add: walk_post_refl)
next
  case (Cons x xs)
  from Cons.prems(2) obtain o1 s1 where f: "f x st = Some (o1, s1)"
    by (cases "f x st") auto
  from Cons.prems(1) [of x st o1 s1] f
  have p1: "walk_post c s st s1" and m1: "o1 = Inr () \<longrightarrow> memo s1 x = Some (Inr ())"
    by simp_all
  show ?case
  proof (cases o1)
    case (Inl e)
    with f Cons.prems(2) have "r = Inl e" "st' = s1" by simp_all
    with p1 show ?thesis by simp
  next
    case (Inr u)
    with f Cons.prems(2) have rest: "for_each f xs s1 = Some (r, st')" by simp
    have "walk_post c s st st' \<and> (r = Inr () \<longrightarrow> memo st' y = Some (Inr ()))"
      if "y \<in> set xs" "f y st = Some (r, st')" for y st r st'
      using Cons.prems(1) [of y st r st'] that by simp
    from Cons.IH [OF this rest]
    have p2: "walk_post c s s1 st'"
      and m2: "r = Inr () \<longrightarrow> (\<forall>y\<in>set xs. memo st' y = Some (Inr ()))" by simp_all
    from m1 Inr have "memo s1 x = Some (Inr ())" by simp
    with p2 have keep: "memo st' x = Some (Inr ())"
      unfolding walk_post_def by auto
    have "walk_post c s st st'"
      using walk_post_trans [OF p1 p2] .
    with m2 keep show ?thesis by simp
  qed
qed

lemma walk_spec:
  assumes q: "quiet c s b"
    and inj: "inj s"
    and injc: "inj c"
    and diff: "\<And>y z. c y \<noteq> s z"
    and run: "walk c s nb b n x st = Some (r, st')"
  shows "walk_post c s st st' \<and> (r = Inr () \<longrightarrow> memo st' x = Some (Inr ()))"
  using run
proof (induction n arbitrary: x st r st')
  case 0
  then show ?case by simp
next
  case (Suc n)
  let ?st2 = "(emit (s x) (emit (c x) st))\<lparr>pending := x # pending st, descent := Suc (descent st)\<rparr>"
  have single: "walk_post c s st ((emit (c x) st)\<lparr>descent := 0\<rparr>)"
    if "memo st x \<noteq> None \<or> x \<in> set (pending st)"
    unfolding walk_post_def using that diff diff [symmetric] injc
    by (intro exI [of _ "[c x]"]) (auto dest: injD)
  have after: "walk_post c s st
      (s3\<lparr>memo := (memo s3)(x \<mapsto> o3), pending := pending st, descent := 0\<rparr>)"
    if none: "memo st x = None" and fresh: "x \<notin> set (pending st)"
      and loop: "for_each (walk c s nb b n) (nb x) ?st2 = Some (o2, s2)"
      and m3: "memo s3 = memo s2"
      and t3: "trace s3 = trace s2 @ nb3" "\<forall>y. c y \<notin> set nb3 \<and> s y \<notin> set nb3"
    for o2 s2 o3 s3 nb3
  proof -
    from walk_post_loop [of "nb x" "walk c s nb b n" c s, OF Suc.IH loop]
    have "walk_post c s ?st2 s2" by simp
    then obtain nl where l:
      "trace s2 = trace ?st2 @ nl"
      "\<forall>y. memo ?st2 y \<noteq> None \<longrightarrow> memo s2 y = memo ?st2 y"
      "\<forall>y. y \<in> set (pending ?st2) \<longrightarrow> memo s2 y = memo ?st2 y"
      "\<forall>y. count_list nl (s y) = (if memo ?st2 y = None \<and> memo s2 y \<noteq> None then 1 else 0)"
      "\<forall>y. c y \<in> set nl \<longrightarrow> memo s2 y \<noteq> None \<or> y \<in> set (pending ?st2)"
      "\<forall>y. s y \<in> set nl \<longrightarrow> c y \<in> set nl"
      unfolding walk_post_def by blast
    let ?st' = "s3\<lparr>memo := (memo s3)(x \<mapsto> o3), pending := pending st, descent := 0\<rparr>"
    let ?new = "[c x, s x] @ nl @ nb3"
    have self: "memo s2 x = None" using l(3) none by simp
    have t: "trace ?st' = trace st @ ?new" using t3(1) l(1) by simp
    have mst': "memo ?st' = (memo s2)(x \<mapsto> o3)" using m3 by simp
    have a: "\<forall>y. memo st y \<noteq> None \<longrightarrow> memo ?st' y = memo st y"
      using mst' l(2) none by auto
    have k: "\<forall>y. y \<in> set (pending st) \<longrightarrow> memo ?st' y = memo st y"
      using mst' l(3) fresh by auto
    have d: "\<forall>y. count_list ?new (s y) = (if memo st y = None \<and> memo ?st' y \<noteq> None then 1 else 0)"
    proof
      fix y
      have nb0: "count_list nb3 (s y) = 0" using t3(2) by (simp add: count_list_0_iff)
      show "count_list ?new (s y) = (if memo st y = None \<and> memo ?st' y \<noteq> None then 1 else 0)"
      proof (cases "y = x")
        case True
        have "count_list nl (s x) = 0" using l(4) self by simp
        with True nb0 diff none mst' show ?thesis by simp
      next
        case False
        then have "s x \<noteq> s y" using inj by (auto dest: injD)
        with False nb0 diff l(4) mst' show ?thesis by simp
      qed
    qed
    have e: "\<forall>y. c y \<in> set ?new \<longrightarrow> memo ?st' y \<noteq> None \<or> y \<in> set (pending st)"
      using mst' l(5) t3(2) diff diff [symmetric] injc by (auto dest: injD)
    have f: "\<forall>y. s y \<in> set ?new \<longrightarrow> c y \<in> set ?new"
      using l(6) t3(2) diff diff [symmetric] inj by (auto dest: injD)
    have p: "pending ?st' = pending st" by simp
    show ?thesis
      unfolding walk_post_def using t p a k d e f by blast
  qed
  from Suc.prems show ?case
  proof (cases rule: walk_cases)
    case hit
    with single show ?thesis by simp
  next
    case exhausted
    with single show ?thesis by simp
  next
    case (failed e s2)
    from after [OF failed(1,2,3), of s2 "[]" "Inl e"] failed show ?thesis by simp
  next
    case (ran s2 s3)
    from q ran(4) have "memo s3 = memo s2" unfolding quiet_def by (metis snd_conv)
    moreover from q ran(4) obtain nb3 where "trace s3 = trace s2 @ nb3"
      "\<forall>y. c y \<notin> set nb3 \<and> s y \<notin> set nb3"
      unfolding quiet_def by (metis snd_conv)
    ultimately have "walk_post c s st
        (s3\<lparr>memo := (memo s3)(x \<mapsto> r), pending := pending st, descent := 0\<rparr>)"
      using after [OF ran(1,2,3)] by blast
    with ran show ?thesis by simp
  qed
qed

lemma for_each_invariant:
  assumes "for_each f xs st = Some (r, st')" and "I st"
    and "\<And>x s o1 s'. x \<in> set xs \<Longrightarrow> I s \<Longrightarrow> f x s = Some (o1, s') \<Longrightarrow> I s'"
  shows "I st'"
  using assms
proof (induction xs arbitrary: st)
  case Nil
  then show ?case by simp
next
  case (Cons x xs)
  from Cons.prems(1) obtain o1 s1 where f: "f x st = Some (o1, s1)"
    by (cases "f x st") auto
  have i1: "I s1" using Cons.prems(3) [of x st o1 s1] Cons.prems(2) f by simp
  show ?case
  proof (cases o1)
    case (Inl e)
    with f Cons.prems(1) i1 show ?thesis by simp
  next
    case (Inr u)
    with f Cons.prems(1) have rest: "for_each f xs s1 = Some (r, st')" by simp
    have "\<And>y s o1 s'. y \<in> set xs \<Longrightarrow> I s \<Longrightarrow> f y s = Some (o1, s') \<Longrightarrow> I s'"
      using Cons.prems(3) by (meson list.set_intros(2))
    from Cons.IH [OF rest i1 this] show ?thesis .
  qed
qed

text \<open>
  A property of the state is kept by a walk when the steps of the walk keep it: the
  two logs, the change of the pending collections, the entry of a failure into the
  cache for a name that is not in it, and the body followed by the entry of its
  outcome, for a name that is not in the cache and whose neighbours are all in the
  cache as done.
\<close>

lemma walk_invariant:
  assumes q: "quiet c s b"
    and inj: "inj s"
    and injc: "inj c"
    and diff: "\<And>y z. c y \<noteq> s z"
    and emitI: "\<And>x st. I st \<Longrightarrow> I (emit (c x) st) \<and> I (emit (s x) st)"
    and pendI: "\<And>st p d. I st \<Longrightarrow> I (st\<lparr>pending := p\<rparr>) \<and> I (st\<lparr>descent := d\<rparr>)"
    and failI: "\<And>x st e. I st \<Longrightarrow> memo st x = None \<Longrightarrow> I (st\<lparr>memo := (memo st)(x \<mapsto> Inl e)\<rparr>)"
    and bodyI: "\<And>x st o1 st'. I st \<Longrightarrow> memo st x = None
                  \<Longrightarrow> \<forall>y\<in>set (nb x). memo st y = Some (Inr ())
                  \<Longrightarrow> b x st = (o1, st') \<Longrightarrow> I (st'\<lparr>memo := (memo st')(x \<mapsto> o1)\<rparr>)"
    and init: "I st"
    and run: "walk c s nb b n x st = Some (r, st')"
  shows "I st'"
  using init run
proof (induction n arbitrary: x st r st')
  case 0
  then show ?case by simp
next
  case (Suc n)
  let ?st2 = "(emit (s x) (emit (c x) st))\<lparr>pending := x # pending st, descent := Suc (descent st)\<rparr>"
  have i2: "I ?st2" using emitI pendI Suc.prems(1) by simp
  have spec: "\<And>y st r st'. walk c s nb b n y st = Some (r, st')
                \<Longrightarrow> walk_post c s st st' \<and> (r = Inr () \<longrightarrow> memo st' y = Some (Inr ()))"
    using walk_spec [OF q inj injc diff] by blast
  have loop: "I s2 \<and> memo s2 x = None \<and> (o2 = Inr () \<longrightarrow> (\<forall>y\<in>set (nb x). memo s2 y = Some (Inr ())))"
    if none: "memo st x = None"
      and run: "for_each (walk c s nb b n) (nb x) ?st2 = Some (o2, s2)" for o2 s2
  proof -
    have "I s2"
      by (rule for_each_invariant [of "walk c s nb b n" "nb x" ?st2 o2 s2 I, OF run i2])
         (rule Suc.IH)
    moreover from walk_post_loop [of "nb x" "walk c s nb b n" c s, OF spec run]
    have pl: "walk_post c s ?st2 s2"
      and ml: "o2 = Inr () \<longrightarrow> (\<forall>y\<in>set (nb x). memo s2 y = Some (Inr ()))"
      by simp_all
    moreover from pl none have "memo s2 x = None" unfolding walk_post_def by auto
    ultimately show ?thesis by simp
  qed
  from Suc.prems(2) show ?case
  proof (cases rule: walk_cases)
    case hit
    with emitI pendI Suc.prems(1) show ?thesis by simp
  next
    case exhausted
    with emitI pendI Suc.prems(1) show ?thesis by simp
  next
    case (failed e s2)
    from loop [OF failed(1,3)] have "I s2" "memo s2 x = None" by simp_all
    from failI [OF this] have "I (s2\<lparr>memo := (memo s2)(x \<mapsto> Inl e)\<rparr>)" .
    with pendI have "I (s2\<lparr>memo := (memo s2)(x \<mapsto> Inl e), pending := pending st\<rparr>)" by blast
    with pendI failed(5) show ?thesis by blast
  next
    case (ran s2 s3)
    from loop [OF ran(1,3)] have "I s2" "memo s2 x = None"
      "\<forall>y\<in>set (nb x). memo s2 y = Some (Inr ())" by simp_all
    from bodyI [OF this ran(4)] have "I (s3\<lparr>memo := (memo s3)(x \<mapsto> r)\<rparr>)" .
    with pendI have "I (s3\<lparr>memo := (memo s3)(x \<mapsto> r), pending := pending st\<rparr>)" by blast
    with pendI ran(5) show ?thesis by blast
  qed
qed

text \<open>The same for a property that the cache and the pending collections have no part in.\<close>

lemma walk_preserves:
  assumes emitI: "\<And>e st. I st \<Longrightarrow> I (emit e st)"
    and memoI: "\<And>st m p d. I st \<Longrightarrow> I (st\<lparr>memo := m, pending := p, descent := d\<rparr>)"
    and bodyI: "\<And>x st. I st \<Longrightarrow> I (snd (b x st))"
    and init: "I st"
    and run: "walk c s nb b n x st = Some (r, st')"
  shows "I st'"
  using init run
proof (induction n arbitrary: x st r st')
  case 0
  then show ?case by simp
next
  case (Suc n)
  let ?st2 = "(emit (s x) (emit (c x) st))\<lparr>pending := x # pending st, descent := Suc (descent st)\<rparr>"
  have same: "I (st\<lparr>pending := p, descent := d\<rparr>)" if "I st" for st p d
    using memoI [OF that, where m = "memo st" and p = p and d = d] by simp
  have i2: "I ?st2" using same [OF emitI [OF emitI [OF Suc.prems(1)]]] .
  have loop: "I s2" if "for_each (walk c s nb b n) (nb x) ?st2 = Some (o2, s2)" for o2 s2
    by (rule for_each_invariant [of "walk c s nb b n" "nb x" ?st2 o2 s2 I, OF that i2])
       (rule Suc.IH)
  from Suc.prems(2) show ?case
  proof (cases rule: walk_cases)
    case hit
    from same [OF emitI [OF Suc.prems(1)], where p = "pending st" and d = 0] hit show ?thesis
      by (simp add: emit_def)
  next
    case exhausted
    from same [OF emitI [OF Suc.prems(1)], where p = "pending st" and d = 0] exhausted show ?thesis
      by (simp add: emit_def)
  next
    case (failed e s2)
    from memoI [OF loop [OF failed(3)]] failed(5) show ?thesis by simp
  next
    case (ran s2 s3)
    from bodyI [OF loop [OF ran(3)], of x] ran(4) have "I s3" by simp
    from memoI [OF this] ran(5) show ?thesis by simp
  qed
qed

lemma each_after_Nil [simp]: "each_after G []"
  by (simp add: each_after_def)

lemma each_after_snoc: "each_after G (t @ [e]) \<longleftrightarrow> each_after G t \<and> G t e"
proof
  assume h: "each_after G (t @ [e])"
  have "each_after G t"
    unfolding each_after_def
  proof (intro allI impI)
    fix pre x post assume "t = pre @ x # post"
    then have "t @ [e] = pre @ x # (post @ [e])" by simp
    with h show "G pre x" unfolding each_after_def by blast
  qed
  moreover from h have "G t e" unfolding each_after_def by blast
  ultimately show "each_after G t \<and> G t e" ..
next
  assume h: "each_after G t \<and> G t e"
  show "each_after G (t @ [e])"
    unfolding each_after_def
  proof (intro allI impI)
    fix pre x post assume eq: "t @ [e] = pre @ x # post"
    show "G pre x"
    proof (cases post rule: rev_cases)
      case Nil
      with eq have "pre = t" "x = e" by simp_all
      with h show ?thesis by simp
    next
      case (snoc post' z)
      with eq have "t = pre @ x # post'" by simp
      with h show ?thesis unfolding each_after_def by blast
    qed
  qed
qed

lemma each_after_append2:
  "each_after G (t @ [a, b]) \<longleftrightarrow> each_after G t \<and> G t a \<and> G (t @ [a]) b"
  using each_after_snoc [of G "t @ [a]" b] each_after_snoc [of G t a] by simp

lemma each_after_append3:
  "each_after G (t @ [a, b, c]) \<longleftrightarrow>
     each_after G t \<and> G t a \<and> G (t @ [a]) b \<and> G (t @ [a, b]) c"
  using each_after_snoc [of G "t @ [a, b]" c] each_after_append2 [of G t a b] by simp

lemma each_after_append5:
  "each_after G (t @ [a, b, c, d, e]) \<longleftrightarrow>
     each_after G t \<and> G t a \<and> G (t @ [a]) b \<and> G (t @ [a, b]) c \<and> G (t @ [a, b, c]) d
       \<and> G (t @ [a, b, c, d]) e"
  using each_after_snoc [of G "t @ [a, b, c, d]" e] each_after_snoc [of G "t @ [a, b, c]" d]
    each_after_append3 [of G t a b c] by simp

section \<open>The bodies of the two functions\<close>

lemma writeJSONFile_ok: "fst (writeJSONFile path data fs) = Inr ()"
  by (simp add: writeJSONFile_def)

lemma writeJSONFile_other: "y \<noteq> path \<Longrightarrow> snd (writeJSONFile path data fs) y = fs y"
  by (simp add: writeJSONFile_def writeFile_def split: fnode.splits)

lemma resolver_errors:
  "getFieldValue fnd m v = Inl e \<Longrightarrow> lookup_error e"
  "updateFieldValues fnd m r = Inl e \<Longrightarrow> lookup_error e"
  "updateElements fnd m vs = Inl e \<Longrightarrow> lookup_error e"
  by (induction fnd m v and fnd m r and fnd m vs arbitrary: e and e and e
        rule: getFieldValue_updateFieldValues_updateElements.induct)
     (auto split: sum.splits option.splits list.splits if_splits)

lemma updateRecords_errors: "updateRecords fnd m rs = Inl e \<Longrightarrow> lookup_error e"
  by (induction rs arbitrary: e) (auto split: sum.splits dest: resolver_errors(2))

lemma updateRecords_length: "updateRecords fnd m rs = Inr rs' \<Longrightarrow> length rs' = length rs"
  by (induction rs arbitrary: rs') (auto split: sum.splits)

text \<open>When the resolution succeeds, the assignments leave the resolved value.\<close>

lemma assigned_resolved:
  "getFieldValue fnd m v = Inr v' \<Longrightarrow> assigned fnd m v = v'"
  "updateFieldValues fnd m r = Inr r' \<Longrightarrow> assignedFields fnd m r = r'"
  "updateElements fnd m vs = Inr vs' \<Longrightarrow> assignedElements fnd m vs = vs'"
  by (induction fnd m v and fnd m r and fnd m vs arbitrary: v' and r' and vs'
        rule: getFieldValue_updateFieldValues_updateElements.induct)
     (auto split: sum.splits option.splits list.splits if_splits)

lemma assigned_records:
  "updateRecords fnd m rs = Inr rs' \<Longrightarrow> map (assignedFields fnd m) rs = rs'"
  by (induction rs arbitrary: rs') (auto split: sum.splits dest: assigned_resolved(2))

text \<open>A property of a resolved record is the resolved property of the record.\<close>

lemma resolved_prop:
  "updateFieldValues fnd m r = Inr r' \<Longrightarrow> getFieldValue fnd m (get_prop r k) = Inr (get_prop r' k)"
  by (induction r arbitrary: r') (auto simp: get_prop_def split: sum.splits)

lemma plain_resolved: "plain m v \<Longrightarrow> getFieldValue fnd m v = Inr v"
  by (cases v) simp_all

lemma updateRecords_ids:
  "updateRecords fnd m rs = Inr resolved \<Longrightarrow>
     list_all2 (\<lambda>r old. plain m (get_prop r ''id'') \<longrightarrow> old = get_prop r ''id'')
       rs (map (\<lambda>r. get_prop r ''id'') resolved)"
proof (induction rs arbitrary: resolved)
  case Nil
  then show ?case by simp
next
  case (Cons r rs)
  from Cons.prems obtain r' rs' where r': "updateFieldValues fnd m r = Inr r'"
    and rs': "updateRecords fnd m rs = Inr rs'" and res: "resolved = r' # rs'"
    by (auto split: sum.splits)
  have "get_prop r' ''id'' = get_prop r ''id''" if "plain m (get_prop r ''id'')"
    using resolved_prop [OF r', of "''id''"] plain_resolved [OF that, of fnd] by simp
  with Cons.IH [OF rs'] res show ?case by simp
qed

subsection \<open>The dictionary\<close>

lemma map_of_assign_key: "map_of (assign_key k v ids) = (map_of ids)(k \<mapsto> v)"
  by (induction ids) auto

lemma dom_fold_assign:
  "dom (map_of (fold (\<lambda>(k, v). assign_key k v) ps ids)) = dom (map_of ids) \<union> fst ` set ps"
  by (induction ps arbitrary: ids) (auto simp: map_of_assign_key)

lemma dom_merge_ids:
  "dom (map_of (merge_ids ids olds news))
     = dom (map_of ids) \<union> fst ` set (zip (map to_text olds) news)"
  by (simp add: merge_ids_def dom_fold_assign)

lemma merged_ids_snoc: "merged_ids (t @ [e]) = merge_step e (merged_ids t)"
  by (simp add: merged_ids_def)

lemma dom_merge_step: "dom (map_of ids) \<subseteq> dom (map_of (merge_step e ids))"
  by (cases e) (simp_all add: dom_merge_ids)

lemma merged_keys:
  "LoadDone A olds news \<in> set t
     \<Longrightarrow> fst ` set (zip (map to_text olds) news) \<subseteq> dom (map_of (merged_ids t))"
proof (induction t rule: rev_induct)
  case Nil
  then show ?case by simp
next
  case (snoc e t)
  show ?case
  proof (cases "e = LoadDone A olds news")
    case True
    then show ?thesis by (simp add: merged_ids_snoc dom_merge_ids)
  next
    case False
    with snoc have "fst ` set (zip (map to_text olds) news) \<subseteq> dom (map_of (merged_ids t))"
      by simp
    with dom_merge_step [of "merged_ids t" e] show ?thesis
      by (auto simp: merged_ids_snoc)
  qed
qed

subsection \<open>Reading the steps\<close>

lemma resolving_iff: "resolving C t \<longleftrightarrow> (\<exists>ids. ResolveStarted C ids \<in> set t)"
proof -
  have "is_resolve C e \<longleftrightarrow> (\<exists>ids. e = ResolveStarted C ids)" for e
    by (cases e) auto
  then show ?thesis by (auto simp: resolving_def list_ex_iff)
qed

lemma merged_iff: "merged C t \<longleftrightarrow> (\<exists>olds news. LoadDone C olds news \<in> set t)"
proof -
  have "is_merge C e \<longleftrightarrow> (\<exists>olds news. e = LoadDone C olds news)" for e
    by (cases e) auto
  then show ?thesis by (auto simp: merged_def list_ex_iff)
qed

lemma written_iff: "written C t \<longleftrightarrow> (\<exists>ids. IdsWriteCalled C ids \<in> set t)"
proof -
  have "is_write C e \<longleftrightarrow> (\<exists>ids. e = IdsWriteCalled C ids)" for e
    by (cases e) auto
  then show ?thesis by (auto simp: written_def list_ex_iff)
qed

lemma steps_append [simp]:
  "resolving C (t @ u) \<longleftrightarrow> resolving C t \<or> resolving C u"
  "merged C (t @ u) \<longleftrightarrow> merged C t \<or> merged C u"
  "written C (t @ u) \<longleftrightarrow> written C t \<or> written C u"
  by (simp_all add: resolving_def merged_def written_def)

lemma steps_Nil [simp]: "\<not> resolving C []" "\<not> merged C []" "\<not> written C []"
  by (simp_all add: resolving_def merged_def written_def)

lemma steps_Cons [simp]:
  "resolving C (e # t) \<longleftrightarrow> is_resolve C e \<or> resolving C t"
  "merged C (e # t) \<longleftrightarrow> is_merge C e \<or> merged C t"
  "written C (e # t) \<longleftrightarrow> is_write C e \<or> written C t"
  by (simp_all add: resolving_def merged_def written_def)

subsection \<open>The body of a load\<close>

lemma load_records_cases:
  assumes "load_records L x s = (o1, s')"
  obtains
    (unresolved) e where "o1 = Inl e" "lookup_error e"
      "trace s' = trace s @ [ResolveStarted x (old2newId s)]"
      "memo s' = memo s" "pending s' = pending s" "old2newId s' = old2newId s"
      "id_files s' = id_files s"
      "\<forall>y. y \<noteq> x \<longrightarrow> sobject2records s' y = sobject2records s y"
      "length (sobject2records s' x) = length (sobject2records s x)"
  | (rejected) m fnd resolved where "o1 = Inl (Rejected m)"
      "updateRecords fnd (map_of (old2newId s)) (sobject2records s x) = Inr resolved"
      "trace s' = trace s @ [ResolveStarted x (old2newId s),
                             BeforeCreating x (map (delete_prop ''id'') resolved)]"
      "memo s' = memo s" "pending s' = pending s" "old2newId s' = old2newId s"
      "id_files s' = id_files s"
      "sobject2records s' = (sobject2records s)(x := map (delete_prop ''id'') resolved)"
  | (failed) rs fnd resolved where "list_ex (\<lambda>r. \<not> success r) rs" "o1 = Inl (CreateFailed x)"
      "updateRecords fnd (map_of (old2newId s)) (sobject2records s x) = Inr resolved"
      "trace s' = trace s @ [ResolveStarted x (old2newId s),
                             BeforeCreating x (map (delete_prop ''id'') resolved),
                             CreateReturned x rs]"
      "memo s' = memo s" "pending s' = pending s" "old2newId s' = old2newId s"
      "id_files s' = id_files s"
      "sobject2records s' = (sobject2records s)(x := map (delete_prop ''id'') resolved)"
  | (created) rs fnd resolved where "\<not> list_ex (\<lambda>r. \<not> success r) rs" "o1 = Inr ()"
      "updateRecords fnd (map_of (old2newId s)) (sobject2records s x) = Inr resolved"
      "trace s' = trace s @ [ResolveStarted x (old2newId s),
                             BeforeCreating x (map (delete_prop ''id'') resolved),
                             CreateReturned x rs, IdsWriteCalled x (map result_id rs),
                             LoadDone x (map (\<lambda>r. get_prop r ''id'') resolved) (map result_id rs)]"
      "memo s' = memo s" "pending s' = pending s"
      "old2newId s' = merge_ids (old2newId s) (map (\<lambda>r. get_prop r ''id'') resolved)
                        (map result_id rs)"
      "\<forall>y. y \<noteq> x \<longrightarrow> id_files s' y = id_files s y"
      "sobject2records s' = (sobject2records s)(x := map (delete_prop ''id'') resolved)"
      "fnd = (\<lambda>soqlFrom. find_records (connection L) (remote_state s) (dollar L soqlFrom) soqlFrom)"
proof -
  let ?st = "emit (ResolveStarted x (old2newId s)) s"
  let ?fnd = "\<lambda>soqlFrom. find_records (connection L) (remote_state ?st) (dollar L soqlFrom) soqlFrom"
  have st: "old2newId ?st = old2newId s" "sobject2records ?st = sobject2records s"
    by (simp_all add: emit_def)
  show ?thesis
  proof (cases "updateRecords ?fnd (map_of (old2newId s)) (sobject2records s x)")
    case (Inl e)
    with assms st have o1: "o1 = Inl e"
      and s': "s' = ?st\<lparr>sobject2records := (sobject2records s)
                    (x := map (assignedFields ?fnd (map_of (old2newId s))) (sobject2records s x))\<rparr>"
      by (simp_all add: load_records_def Let_def)
    from updateRecords_errors [OF Inl] o1 s' show ?thesis
      by (intro unresolved [of e]) (simp_all add: emit_def)
  next
    case (Inr resolved)
    let ?stripped = "map (delete_prop ''id'') resolved"
    let ?olds = "map (\<lambda>r. get_prop r ''id'') resolved"
    let ?st1 = "emit (BeforeCreating x ?stripped)
                  (?st\<lparr>sobject2records := (sobject2records s)(x := ?stripped)\<rparr>)"
    obtain res rs where cr:
      "create_records (connection L) (remote_state ?st1) (dollar L x) x ?stripped = (res, rs)"
      by (cases "create_records (connection L) (remote_state ?st1) (dollar L x) x ?stripped")
    show ?thesis
    proof (cases res)
      case (Inl m)
      with assms st Inr cr have "o1 = Inl (Rejected m)" "s' = ?st1\<lparr>remote_state := rs\<rparr>"
        by (simp_all add: load_records_def Let_def)
      with Inr show ?thesis
        by (intro rejected [of m ?fnd resolved]) (simp_all add: emit_def)
    next
      case r: (Inr newRecords)
      let ?st2 = "emit (CreateReturned x newRecords) (?st1\<lparr>remote_state := rs\<rparr>)"
      show ?thesis
      proof (cases "list_ex (\<lambda>res. \<not> success res) newRecords")
        case True
        with assms st Inr cr r have "o1 = Inl (CreateFailed x)" "s' = ?st2"
          by (simp_all add: load_records_def Let_def)
        with True Inr show ?thesis
          by (intro failed [of newRecords ?fnd resolved]) (simp_all add: emit_def)
      next
        case False
        let ?news = "map result_id newRecords"
        obtain w fs where w: "writeJSONFile x ?news (id_files ?st2) = (w, fs)"
          by (cases "writeJSONFile x ?news (id_files ?st2)")
        with writeJSONFile_ok [of x ?news "id_files ?st2"]
        have wok: "w = Inr ()" by simp
        from w writeJSONFile_other [of _ x ?news "id_files ?st2"]
        have other: "\<forall>y. y \<noteq> x \<longrightarrow> fs y = id_files s y" by (simp add: emit_def)
        let ?st3 = "emit (IdsWriteCalled x ?news) (?st2\<lparr>id_files := fs\<rparr>)"
        from assms st Inr cr r False w wok
        have "o1 = Inr ()"
          and "s' = emit (LoadDone x ?olds ?news)
                      (?st3\<lparr>old2newId := merge_ids (old2newId ?st3) ?olds ?news\<rparr>)"
          by (simp_all add: load_records_def Let_def)
        with False other Inr show ?thesis
          by (intro created [of newRecords ?fnd resolved]) (simp_all add: emit_def)
      qed
    qed
  qed
qed

text \<open>What every way through the body of a load has in common.\<close>

lemma load_records_frame:
  assumes "load_records L x s = (o1, s')"
  shows "memo s' = memo s" and "pending s' = pending s"
    and "\<exists>u. trace s' = trace s @ ResolveStarted x (old2newId s) # u
           \<and> (\<forall>y. LoadCalled y \<notin> set u \<and> LoadStarted y \<notin> set u)
           \<and> (\<forall>y. resolving y u \<longrightarrow> y = x)"
    and "\<forall>y. y \<noteq> x \<longrightarrow> sobject2records s' y = sobject2records s y"
    and "length (sobject2records s' x) = length (sobject2records s x)"
proof -
  from assms have "memo s' = memo s \<and> pending s' = pending s
      \<and> (\<exists>u. trace s' = trace s @ ResolveStarted x (old2newId s) # u
           \<and> (\<forall>y. LoadCalled y \<notin> set u \<and> LoadStarted y \<notin> set u)
           \<and> (\<forall>y. resolving y u \<longrightarrow> y = x))
      \<and> (\<forall>y. y \<noteq> x \<longrightarrow> sobject2records s' y = sobject2records s y)
      \<and> length (sobject2records s' x) = length (sobject2records s x)"
  proof (cases rule: load_records_cases)
    case (unresolved e)
    then show ?thesis by simp
  next
    case (rejected m fnd resolved)
    with updateRecords_length [OF rejected(2)] show ?thesis by simp
  next
    case (failed rs fnd resolved)
    with updateRecords_length [OF failed(3)] show ?thesis by simp
  next
    case (created rs fnd resolved)
    with updateRecords_length [OF created(3)] show ?thesis by simp
  qed
  then show "memo s' = memo s" and "pending s' = pending s"
    and "\<exists>u. trace s' = trace s @ ResolveStarted x (old2newId s) # u
           \<and> (\<forall>y. LoadCalled y \<notin> set u \<and> LoadStarted y \<notin> set u)
           \<and> (\<forall>y. resolving y u \<longrightarrow> y = x)"
    and "\<forall>y. y \<noteq> x \<longrightarrow> sobject2records s' y = sobject2records s y"
    and "length (sobject2records s' x) = length (sobject2records s x)"
    by blast+
qed

subsection \<open>The body of a deletion\<close>

lemma delete_records_cases:
  assumes "delete_records L x s = (o1, s')"
  obtains
    (skipped) "o1 = Inr ()" "s' = emit (DeleteSkipped x) s" "\<forall>ids. id_files s x \<noteq> Ids ids"
  | (no_find) m where "o1 = Inl (Rejected m)" "s' = s"
  | (stopped) e where "o1 = Inl e" "trace s' = trace s @ [DestroyCalled x]"
      "memo s' = memo s" "pending s' = pending s" "id_files s' = id_files s"
      "sobject2records s' = sobject2records s"
  | (destroyed) "o1 = Inr ()" "trace s' = trace s @ [DestroyCalled x, DeleteDone x]"
      "memo s' = memo s" "pending s' = pending s" "id_files s' = id_files s"
      "sobject2records s' = sobject2records s"
proof (cases "readJSONFile x (id_files s)")
  case (Inl err)
  with assms have "o1 = Inr ()" "s' = emit (DeleteSkipped x) s"
    by (simp_all add: delete_records_def)
  moreover from Inl have "\<forall>ids. id_files s x \<noteq> Ids ids"
    by (auto simp: readJSONFile_def readFile_def)
  ultimately show ?thesis by (rule skipped)
next
  case (Inr ids)
  show ?thesis
  proof (cases "find_by_ids (connection L) (remote_state s) (dollar L x) x ids")
    case (Inl m)
    with assms Inr have "o1 = Inl (Rejected m)" "s' = s"
      by (simp_all add: delete_records_def)
    then show ?thesis by (rule no_find)
  next
    case f: (Inr recs)
    let ?st1 = "emit (DestroyCalled x) s"
    obtain res rs where d:
      "destroy_records (connection L) (remote_state ?st1) (dollar L x) x
         (map (\<lambda>r. get_prop r ''Id'') recs) = (res, rs)"
      by (cases "destroy_records (connection L) (remote_state ?st1) (dollar L x) x
         (map (\<lambda>r. get_prop r ''Id'') recs)")
    show ?thesis
    proof (cases res)
      case (Inl m)
      with assms Inr f d have "o1 = Inl (Rejected m)" "s' = ?st1\<lparr>remote_state := rs\<rparr>"
        by (simp_all add: delete_records_def Let_def)
      then show ?thesis by (intro stopped [of "Rejected m"]) (simp_all add: emit_def)
    next
      case r: (Inr ress)
      show ?thesis
      proof (cases "list_ex (\<lambda>res. \<not> success res) ress")
        case True
        with assms Inr f d r have "o1 = Inl (DeleteFailed x ress)" "s' = ?st1\<lparr>remote_state := rs\<rparr>"
          by (simp_all add: delete_records_def Let_def)
        then show ?thesis by (intro stopped [of "DeleteFailed x ress"]) (simp_all add: emit_def)
      next
        case False
        with assms Inr f d r have "o1 = Inr ()"
          "s' = emit (DeleteDone x) (?st1\<lparr>remote_state := rs\<rparr>)"
          by (simp_all add: delete_records_def Let_def)
        then show ?thesis by (intro destroyed) (simp_all add: emit_def)
      qed
    qed
  qed
qed

lemma quiet_load: "quiet LoadCalled LoadStarted (load_records L)"
  unfolding quiet_def
proof (intro allI)
  fix x s
  obtain o1 s' where b: "load_records L x s = (o1, s')" by (cases "load_records L x s")
  from load_records_frame(1,2,3) [OF b]
  have "memo s' = memo s \<and> pending s' = pending s \<and>
        (\<exists>new. trace s' = trace s @ new \<and>
           (\<forall>y. LoadCalled y \<notin> set new \<and> LoadStarted y \<notin> set new))"
    by auto
  with b show "memo (snd (load_records L x s)) = memo s \<and>
        pending (snd (load_records L x s)) = pending s \<and>
        (\<exists>new. trace (snd (load_records L x s)) = trace s @ new \<and>
           (\<forall>y. LoadCalled y \<notin> set new \<and> LoadStarted y \<notin> set new))"
    by simp
qed

lemma quiet_delete: "quiet DeleteCalled DeleteStarted (delete_records L)"
  unfolding quiet_def
proof (intro allI)
  fix x s
  obtain o1 s' where b: "delete_records L x s = (o1, s')" by (cases "delete_records L x s")
  from b have "memo s' = memo s \<and> pending s' = pending s \<and>
        (\<exists>new. trace s' = trace s @ new \<and>
           (\<forall>y. DeleteCalled y \<notin> set new \<and> DeleteStarted y \<notin> set new))"
    by (cases rule: delete_records_cases) auto
  with b show "memo (snd (delete_records L x s)) = memo s \<and>
        pending (snd (delete_records L x s)) = pending s \<and>
        (\<exists>new. trace (snd (delete_records L x s)) = trace s @ new \<and>
           (\<forall>y. DeleteCalled y \<notin> set new \<and> DeleteStarted y \<notin> set new))"
    by simp
qed

lemma inj_events:
  "inj LoadCalled" "inj LoadStarted" "inj DeleteCalled" "inj DeleteStarted"
  by (simp_all add: inj_def)

section \<open>The order of the steps\<close>

lemma merged_ids_append: "merged_ids (t @ u) = fold merge_step u (merged_ids t)"
  by (simp add: merged_ids_def)

lemma load_order_walk:
  assumes init: "load_order L recs b st"
    and run: "loadSObjectData n L x st = Some (r, st')"
  shows "load_order L recs b st'"
proof (rule walk_invariant [where I = "load_order L recs b" and c = LoadCalled and s = LoadStarted
        and nb = "child2parent L" and b = "load_records L" and st = st and n = n and x = x
        and r = r])
  show "quiet LoadCalled LoadStarted (load_records L)" by (rule quiet_load)
  show "inj LoadStarted" "inj LoadCalled" by (rule inj_events)+
  show "\<And>y z. LoadCalled y \<noteq> LoadStarted z" by simp
  show "load_order L recs b st" by (rule init)
  show "walk LoadCalled LoadStarted (child2parent L) (load_records L) n x st = Some (r, st')"
    using run by (simp add: load_is_walk)
next
  fix x st
  assume "load_order L recs b st"
  then show "load_order L recs b (emit (LoadCalled x) st)
           \<and> load_order L recs b (emit (LoadStarted x) st)"
    unfolding load_order_def
    by (auto simp: each_after_snoc merged_ids_snoc emit_def)
next
  fix st :: "'a state" and p d
  assume "load_order L recs b st"
  then show "load_order L recs b (st\<lparr>pending := p\<rparr>) \<and> load_order L recs b (st\<lparr>descent := d\<rparr>)"
    unfolding load_order_def by simp
next
  fix x st e
  assume "load_order L recs b st" "memo st x = None"
  then show "load_order L recs b (st\<lparr>memo := (memo st)(x \<mapsto> Inl e)\<rparr>)"
    unfolding load_order_def by auto
next
  fix x st o1 st'
  assume i: "load_order L recs b st" and none: "memo st x = None"
    and par: "\<forall>y\<in>set (child2parent L x). memo st y = Some (Inr ())"
    and body: "load_records L x st = (o1, st')"
  from i obtain t where t: "trace st = b @ t" "each_after (load_guard L recs) t"
    "\<forall>y. memo st y = Some (Inr ()) \<longrightarrow> merged y t"
    "old2newId st = merged_ids t"
    "\<forall>y. sobject2records st y \<noteq> recs y \<longrightarrow> resolving y t"
    "\<forall>y. resolving y t \<longrightarrow> memo st y \<noteq> None"
    unfolding load_order_def by blast
  from par t(3) have g: "list_all (\<lambda>P. merged P t) (child2parent L x)"
    by (simp add: list_all_iff)
  then have g': "list_all (\<lambda>P. merged P (t @ u)) (child2parent L x)" for u
    by (simp add: list_all_iff)
  from t(6) none have nx: "\<not> resolving x t" by auto
  with t(5) have rx: "sobject2records st x = recs x" by auto
  let ?st' = "st'\<lparr>memo := (memo st')(x \<mapsto> o1)\<rparr>"
  have step: "load_order L recs b ?st'"
    if u: "trace st' = trace st @ ResolveStarted x (old2newId st) # u"
      and ord: "each_after (load_guard L recs) (t @ ResolveStarted x (old2newId st) # u)"
      and m: "memo st' = memo st"
      and ids: "old2newId st' = merged_ids (t @ ResolveStarted x (old2newId st) # u)"
      and other: "\<forall>y. y \<noteq> x \<longrightarrow> sobject2records st' y = sobject2records st y"
      and only: "\<forall>y. resolving y u \<longrightarrow> y = x"
      and fin: "o1 = Inr () \<longrightarrow> merged x u" for u
    unfolding load_order_def
  proof (intro exI [of _ "t @ ResolveStarted x (old2newId st) # u"] conjI allI impI)
    show "trace ?st' = b @ t @ ResolveStarted x (old2newId st) # u" using u t(1) by simp
    show "each_after (load_guard L recs) (t @ ResolveStarted x (old2newId st) # u)" by (rule ord)
    show "old2newId ?st' = merged_ids (t @ ResolveStarted x (old2newId st) # u)"
      using ids by simp
  next
    fix y assume "memo ?st' y = Some (Inr ())"
    with m t(3) fin show "merged y (t @ ResolveStarted x (old2newId st) # u)"
      by (cases "y = x") auto
  next
    fix y assume "sobject2records ?st' y \<noteq> recs y"
    with other t(5) show "resolving y (t @ ResolveStarted x (old2newId st) # u)"
      by (cases "y = x") auto
  next
    fix y assume "resolving y (t @ ResolveStarted x (old2newId st) # u)"
    with only t(6) m show "memo ?st' y \<noteq> None"
      by (cases "y = x") auto
  qed
  have first: "load_guard L recs t (ResolveStarted x (old2newId st))"
    using g t(4) by simp
  from body show "load_order L recs b ?st'"
  proof (cases rule: load_records_cases)
    case (unresolved e)
    show ?thesis
    proof (rule step [of "[]"])
      show "each_after (load_guard L recs) (t @ [ResolveStarted x (old2newId st)])"
        using t(2) first by (simp add: each_after_snoc)
      show "old2newId st' = merged_ids (t @ [ResolveStarted x (old2newId st)])"
        using unresolved t(4) by (simp add: merged_ids_append)
    qed (use unresolved in simp_all)
  next
    case (rejected m fnd resolved)
    show ?thesis
    proof (rule step [of "[BeforeCreating x (map (delete_prop ''id'') resolved)]"])
      show "each_after (load_guard L recs)
              (t @ [ResolveStarted x (old2newId st), BeforeCreating x (map (delete_prop ''id'') resolved)])"
        using t(2) first by (simp add: each_after_append2)
      show "old2newId st' = merged_ids
              (t @ [ResolveStarted x (old2newId st), BeforeCreating x (map (delete_prop ''id'') resolved)])"
        using rejected t(4) by (simp add: merged_ids_append)
    qed (use rejected in simp_all)
  next
    case (failed rs fnd resolved)
    show ?thesis
    proof (rule step [of "[BeforeCreating x (map (delete_prop ''id'') resolved), CreateReturned x rs]"])
      show "each_after (load_guard L recs)
              (t @ [ResolveStarted x (old2newId st), BeforeCreating x (map (delete_prop ''id'') resolved),
                    CreateReturned x rs])"
        using t(2) first by (simp add: each_after_append3)
      show "old2newId st' = merged_ids
              (t @ [ResolveStarted x (old2newId st), BeforeCreating x (map (delete_prop ''id'') resolved),
                    CreateReturned x rs])"
        using failed t(4) by (simp add: merged_ids_append)
    qed (use failed in simp_all)
  next
    case (created rs fnd resolved)
    let ?olds = "map (\<lambda>r. get_prop r ''id'') resolved"
    let ?u = "[BeforeCreating x (map (delete_prop ''id'') resolved), CreateReturned x rs,
               IdsWriteCalled x (map result_id rs), LoadDone x ?olds (map result_id rs)]"
    have olds: "list_all2 (\<lambda>r old. plain (map_of (old2newId st)) (get_prop r ''id'')
                   \<longrightarrow> old = get_prop r ''id'') (recs x) ?olds"
      using updateRecords_ids [OF created(3)] rx by simp
    have last: "load_guard L recs
              (t @ [ResolveStarted x (old2newId st), BeforeCreating x (map (delete_prop ''id'') resolved),
                    CreateReturned x rs, IdsWriteCalled x (map result_id rs)])
              (LoadDone x ?olds (map result_id rs))"
      using g created(1) olds by (auto simp: list_all_iff)
    show ?thesis
    proof (rule step [of ?u])
      show "each_after (load_guard L recs) (t @ ResolveStarted x (old2newId st) # ?u)"
        using t(2) first last by (simp add: each_after_append5)
      show "old2newId st' = merged_ids (t @ ResolveStarted x (old2newId st) # ?u)"
        using created t(4) by (simp add: merged_ids_append)
    qed (use created in simp_all)
  qed
qed

lemma deleted_mono: "deleted D t \<Longrightarrow> deleted D (t @ u)"
  by (auto simp: deleted_def)

lemma delete_order_walk:
  assumes init: "delete_order L b st"
    and run: "deleteLoadedSObjectData n L x st = Some (r, st')"
  shows "delete_order L b st'"
proof (rule walk_invariant [where I = "delete_order L b" and c = DeleteCalled and s = DeleteStarted
        and nb = "parent2child L" and b = "delete_records L" and st = st and n = n and x = x
        and r = r])
  show "quiet DeleteCalled DeleteStarted (delete_records L)" by (rule quiet_delete)
  show "inj DeleteStarted" "inj DeleteCalled" by (rule inj_events)+
  show "\<And>y z. DeleteCalled y \<noteq> DeleteStarted z" by simp
  show "delete_order L b st" by (rule init)
  show "walk DeleteCalled DeleteStarted (parent2child L) (delete_records L) n x st = Some (r, st')"
    using run by (simp add: delete_is_walk)
next
  fix x st
  assume "delete_order L b st"
  then show "delete_order L b (emit (DeleteCalled x) st) \<and> delete_order L b (emit (DeleteStarted x) st)"
    unfolding delete_order_def by (auto simp: each_after_snoc deleted_mono)
next
  fix st :: "'a state" and p d
  assume "delete_order L b st"
  then show "delete_order L b (st\<lparr>pending := p\<rparr>) \<and> delete_order L b (st\<lparr>descent := d\<rparr>)"
    unfolding delete_order_def by simp
next
  fix x st e
  assume "delete_order L b st" "memo st x = None"
  then show "delete_order L b (st\<lparr>memo := (memo st)(x \<mapsto> Inl e)\<rparr>)"
    unfolding delete_order_def by auto
next
  fix x st o1 st'
  assume i: "delete_order L b st" and none: "memo st x = None"
    and chi: "\<forall>y\<in>set (parent2child L x). memo st y = Some (Inr ())"
    and body: "delete_records L x st = (o1, st')"
  from i obtain t where t: "trace st = b @ t" "each_after (delete_guard L) t"
    "\<forall>y. memo st y = Some (Inr ()) \<longrightarrow> deleted y t"
    unfolding delete_order_def by blast
  from chi t(3) have g: "list_all (\<lambda>D. deleted D t) (parent2child L x)"
    by (simp add: list_all_iff)
  from body show "delete_order L b (st'\<lparr>memo := (memo st')(x \<mapsto> o1)\<rparr>)"
  proof (cases rule: delete_records_cases)
    case skipped
    with t show ?thesis
      unfolding delete_order_def
      by (intro exI [of _ "t @ [DeleteSkipped x]"])
         (auto simp: each_after_snoc deleted_mono, simp add: deleted_def)
  next
    case (no_find m)
    with t none show ?thesis
      unfolding delete_order_def by (intro exI [of _ t]) auto
  next
    case (stopped e)
    with t g none show ?thesis
      unfolding delete_order_def
      by (intro exI [of _ "t @ [DestroyCalled x]"]) (auto simp: each_after_snoc deleted_mono)
  next
    case destroyed
    with t g show ?thesis
      unfolding delete_order_def
      by (intro exI [of _ "t @ [DestroyCalled x, DeleteDone x]"])
         (auto simp: each_after_append2 deleted_mono, simp add: deleted_def)
  qed
qed

lemma ancestors_done:
  assumes ord: "each_after (load_guard L recs) t" and anc: "(A, C) \<in> (parent_rel L)\<^sup>+"
  shows "\<forall>pre post ids olds news.
           t = pre @ ResolveStarted C ids # post \<or> t = pre @ LoadDone C olds news # post
           \<longrightarrow> merged A pre"
  using anc
proof (induction rule: trancl_induct)
  case (base C)
  then have "A \<in> set (child2parent L C)" by (simp add: parent_rel_def calls_def)
  with ord show ?case unfolding each_after_def by (fastforce simp: list_all_iff)
next
  case (step B C)
  show ?case
  proof (intro allI impI)
    fix pre post ids olds news
    assume eq: "t = pre @ ResolveStarted C ids # post \<or> t = pre @ LoadDone C olds news # post"
    from step.hyps(2) have "B \<in> set (child2parent L C)" by (simp add: parent_rel_def calls_def)
    with ord eq have "merged B pre" unfolding each_after_def by (fastforce simp: list_all_iff)
    then obtain bo bn where "LoadDone B bo bn \<in> set pre" by (auto simp: merged_iff)
    then obtain p1 p2 where pre: "pre = p1 @ LoadDone B bo bn # p2" by (auto dest: split_list)
    with eq have "\<exists>post'. t = p1 @ LoadDone B bo bn # post'" by auto
    with step.IH have "merged A p1" by blast
    with pre show "merged A pre" by simp
  qed
qed

lemma built_relations:
  assumes "L = getDataLoader conn tooling names recs"
  shows "child_rel L = (parent_rel L)\<inverse>" and "finite (parent_rel L)"
proof -
  have sub: "set (parent2childObjects names recs P) \<subseteq> set names" for P
    by (auto simp: parent2childObjects_def)
  show "child_rel L = (parent_rel L)\<inverse>"
    using assms sub
    by (auto simp: child_rel_def parent_rel_def calls_def getDataLoader_def dictionary_def
          child2parentSObjects_def split: if_splits)
  have "parent_rel L \<subseteq> set names \<times> set names"
    using assms
    by (auto simp: parent_rel_def calls_def getDataLoader_def dictionary_def
          child2parentSObjects_def split: if_splits)
  then show "finite (parent_rel L)" by (rule finite_subset) simp
qed

lemma built_wf:
  assumes L: "L = getDataLoader conn tooling names recs" and acy: "acyclic (parent_rel L)"
  shows "wf (calls (child2parent L))" and "wf (calls (parent2child L))"
proof -
  note rel = built_relations [OF L]
  show "wf (calls (child2parent L))"
    using rel(2) acy by (simp add: parent_rel_def [symmetric] finite_acyclic_wf)
  have "acyclic ((parent_rel L)\<inverse>)" using acy by (simp add: acyclic_converse)
  then have c: "acyclic (child_rel L)" using rel(1) by simp
  have "finite (child_rel L)" using rel by simp
  with c show "wf (calls (parent2child L))"
    by (simp add: child_rel_def [symmetric] finite_acyclic_wf)
qed

lemma loadData_total:
  assumes L: "L = getDataLoader conn tooling names recs" and acy: "acyclic (parent_rel L)"
  shows "\<exists>n r. loadData n L st = Some r"
proof -
  let ?st0 = "st\<lparr>old2newId := [], memo := Map.empty, pending := [], descent := 0\<rparr>"
  have "\<exists>n r. for_each (walk LoadCalled LoadStarted (child2parent L) (load_records L) n)
          (sobjects L) ?st0 = Some r"
  proof (rule for_each_total [where p = "[]"])
    fix x and s :: "'a state"
    assume "pending s = []"
    then show "\<exists>n r. walk LoadCalled LoadStarted (child2parent L) (load_records L) n x s = Some r"
      by (intro walk_total [OF built_wf(1) [OF L acy]]) simp
  qed simp
  then obtain n o1 s1 where
    "for_each (loadSObjectData n L) (sobjects L) ?st0 = Some (o1, s1)"
    by (auto simp: load_is_walk)
  then have "\<exists>r. loadData n L st = Some r"
    by (cases o1) (simp_all add: loadData_def)
  then show ?thesis by blast
qed

lemma deleteLoadedData_total:
  assumes L: "L = getDataLoader conn tooling names recs" and acy: "acyclic (parent_rel L)"
  shows "\<exists>n r. deleteLoadedData n L st = Some r"
proof -
  let ?st0 = "st\<lparr>memo := Map.empty, pending := [], descent := 0\<rparr>"
  have "\<exists>n r. for_each (walk DeleteCalled DeleteStarted (parent2child L) (delete_records L) n)
          (sobjects L) ?st0 = Some r"
  proof (rule for_each_total [where p = "[]"])
    fix x and s :: "'a state"
    assume "pending s = []"
    then show "\<exists>n r. walk DeleteCalled DeleteStarted (parent2child L) (delete_records L) n x s = Some r"
      by (intro walk_total [OF built_wf(2) [OF L acy]]) simp
  qed simp
  then show ?thesis by (simp add: deleteLoadedData_def delete_is_walk)
qed

lemma loadData_run:
  assumes "loadData n L st = Some (res, st')"
  obtains o1 where
    "for_each (loadSObjectData n L) (sobjects L)
       (st\<lparr>old2newId := [], memo := Map.empty, pending := [], descent := 0\<rparr>) = Some (o1, st')"
    "res = (case o1 of Inl e \<Rightarrow> Inl e | Inr u \<Rightarrow> Inr (old2newId st'))"
  using assms unfolding loadData_def
  by (auto split: option.splits sum.splits prod.splits)

lemma load_order_run:
  assumes run: "loadData n L st = Some (res, st')"
  shows "load_order L (sobject2records st) (trace st) st'"
proof -
  let ?st0 = "st\<lparr>old2newId := [], memo := Map.empty, pending := [], descent := 0\<rparr>"
  from run obtain o1 where loop:
    "for_each (loadSObjectData n L) (sobjects L) ?st0 = Some (o1, st')"
    by (rule loadData_run)
  have init: "load_order L (sobject2records st) (trace st) ?st0"
    by (simp add: load_order_def merged_ids_def)
  show ?thesis
    by (rule for_each_invariant [of "loadSObjectData n L" "sobjects L" _ o1 st'
          "load_order L (sobject2records st) (trace st)", OF loop init])
       (rule load_order_walk)
qed

lemma delete_order_run:
  assumes run: "deleteLoadedData n L st = Some (res, st')"
  shows "delete_order L (trace st) st'"
proof -
  let ?st0 = "st\<lparr>memo := Map.empty, pending := [], descent := 0\<rparr>"
  from run have loop:
    "for_each (deleteLoadedSObjectData n L) (sobjects L) ?st0 = Some (res, st')"
    by (simp add: deleteLoadedData_def)
  have init: "delete_order L (trace st) ?st0"
    by (simp add: delete_order_def)
  show ?thesis
    by (rule for_each_invariant [of "deleteLoadedSObjectData n L" "sobjects L" _ res st'
          "delete_order L (trace st)", OF loop init]) (rule delete_order_walk)
qed

lemma steps_since_append: "trace st' = trace st @ new \<Longrightarrow> steps_since st st' = new"
  by (simp add: steps_since_def)

text \<open>
  C1, as amended. On an acyclic input the load and the deletion return. In a load,
  when the resolution of the fields of a collection \<open>C\<close> starts, the dictionary it is
  resolved with is the one that the merges before have built, and every ancestor \<open>A\<close>
  of \<open>C\<close> has before that started its own resolution, had its batch create answered
  with every record a success, and had its identifiers merged: the new identifiers of
  that answer under the old ones, each of which is then a key of the dictionary. The
  old identifier of a record is read after the resolution of \<open>A\<close>: it is what the
  record had as \<open>id\<close> at the start if that is a value the resolver gives back as it
  is, with the dictionary \<open>A\<close> was resolved with; of the other records nothing is said
  here. In a deletion, when destroy is called for \<open>C\<close>, the deletion of every child of
  \<open>C\<close> has ended before, skipped or done.
\<close>

theorem dependency_order:
  assumes L: "L = getDataLoader conn tooling names recs" and acy: "acyclic (parent_rel L)"
  shows "(\<exists>n r. loadData n L st = Some r) \<and> (\<exists>n r. deleteLoadedData n L st = Some r)
       \<and> (\<forall>n res st' pre ids post C A.
            loadData n L st = Some (res, st') \<longrightarrow>
            steps_since st st' = pre @ ResolveStarted C ids # post \<longrightarrow>
            (A, C) \<in> (parent_rel L)\<^sup>+ \<longrightarrow>
              ids = merged_ids pre
            \<and> (\<exists>idsA rs olds.
                  ResolveStarted A idsA \<in> set pre
                \<and> CreateReturned A rs \<in> set pre \<and> \<not> list_ex (\<lambda>r. \<not> success r) rs
                \<and> LoadDone A olds (map result_id rs) \<in> set pre
                \<and> list_all2 (\<lambda>r old. plain (map_of idsA) (get_prop r ''id'')
                               \<longrightarrow> old = get_prop r ''id'')
                     (sobject2records st A) olds
                \<and> fst ` set (zip (map to_text olds) (map result_id rs)) \<subseteq> dom (map_of ids)))
       \<and> (\<forall>n res st' pre post C D.
            deleteLoadedData n L st = Some (res, st') \<longrightarrow>
            steps_since st st' = pre @ DestroyCalled C # post \<longrightarrow>
            D \<in> set (parent2child L C) \<longrightarrow> DeleteSkipped D \<in> set pre \<or> DeleteDone D \<in> set pre)"
proof (intro conjI allI impI)
  show "\<exists>n r. loadData n L st = Some r" by (rule loadData_total [OF L acy])
  show "\<exists>n r. deleteLoadedData n L st = Some r" by (rule deleteLoadedData_total [OF L acy])
next
  fix n res st' pre ids post C A
  assume run: "loadData n L st = Some (res, st')"
    and eq: "steps_since st st' = pre @ ResolveStarted C ids # post"
    and anc: "(A, C) \<in> (parent_rel L)\<^sup>+"
  let ?G = "load_guard L (sobject2records st)"
  from load_order_run [OF run] obtain t where
    "trace st' = trace st @ t" "each_after ?G t"
    unfolding load_order_def by blast
  with eq have t: "t = pre @ ResolveStarted C ids # post" and ord: "each_after ?G t"
    by (simp_all add: steps_since_def)
  from ord t have "?G pre (ResolveStarted C ids)" unfolding each_after_def by blast
  then show ids: "ids = merged_ids pre" by simp
  from ancestors_done [OF ord anc] t have "merged A pre" by blast
  then obtain olds news where ld: "LoadDone A olds news \<in> set pre" by (auto simp: merged_iff)
  then obtain p1 p2 where pre: "pre = p1 @ LoadDone A olds news # p2" by (auto dest: split_list)
  with t have "t = p1 @ LoadDone A olds news # (p2 @ ResolveStarted C ids # post)" by simp
  with ord have "?G p1 (LoadDone A olds news)" unfolding each_after_def by blast
  then obtain idsA rs where a:
    "ResolveStarted A idsA \<in> set p1" "CreateReturned A rs \<in> set p1"
    "\<not> list_ex (\<lambda>r. \<not> success r) rs" "news = map result_id rs"
    "list_all2 (\<lambda>r old. plain (map_of idsA) (get_prop r ''id'') \<longrightarrow> old = get_prop r ''id'')
       (sobject2records st A) olds"
    by auto
  from merged_keys [OF ld] ids a(4)
  have "fst ` set (zip (map to_text olds) (map result_id rs)) \<subseteq> dom (map_of ids)" by simp
  with a ld pre
  show "\<exists>idsA rs olds.
          ResolveStarted A idsA \<in> set pre
        \<and> CreateReturned A rs \<in> set pre \<and> \<not> list_ex (\<lambda>r. \<not> success r) rs
        \<and> LoadDone A olds (map result_id rs) \<in> set pre
        \<and> list_all2 (\<lambda>r old. plain (map_of idsA) (get_prop r ''id'')
                       \<longrightarrow> old = get_prop r ''id'')
             (sobject2records st A) olds
        \<and> fst ` set (zip (map to_text olds) (map result_id rs)) \<subseteq> dom (map_of ids)"
    by (intro exI [of _ idsA] exI [of _ rs] exI [of _ olds]) simp
next
  fix n res st' pre post C D
  assume run: "deleteLoadedData n L st = Some (res, st')"
    and eq: "steps_since st st' = pre @ DestroyCalled C # post"
    and child: "D \<in> set (parent2child L C)"
  from delete_order_run [OF run] obtain t where
    "trace st' = trace st @ t" "each_after (delete_guard L) t"
    unfolding delete_order_def by blast
  with eq have "t = pre @ DestroyCalled C # post" "each_after (delete_guard L) t"
    by (simp_all add: steps_since_def)
  then have "delete_guard L pre (DestroyCalled C)" unfolding each_after_def by blast
  with child show "DeleteSkipped D \<in> set pre \<or> DeleteDone D \<in> set pre"
    by (simp add: list_all_iff deleted_def)
qed

lemma ex_parent_rel: "parent_rel ex_loader = {(''Parent'', ''Child'')}"
proof -
  have c: "child2parentSObjects ex_names ex_records ''Child'' = [''Parent'']"
    and p: "child2parentSObjects ex_names ex_records ''Parent'' = []"
    by code_simp+
  show ?thesis
    using c p
    by (auto simp: parent_rel_def calls_def ex_loader_def getDataLoader_def dictionary_def
          ex_names_def split: if_splits)
qed

lemma ex_acyclic: "acyclic (parent_rel ex_loader)"
  by (simp add: ex_parent_rel acyclic_insert wf_acyclic)

lemma ex_failing_acyclic: "acyclic (parent_rel (ex_failing_loader bad))"
proof -
  have "parent_rel (ex_failing_loader bad) = parent_rel ex_loader"
    by (simp add: parent_rel_def ex_failing_loader_def ex_loader_def getDataLoader_def)
  with ex_acyclic show ?thesis by simp
qed

lemma ex_query_parent_rel: "parent_rel ex_query_loader = {(''Parent'', ''Child'')}"
proof -
  have c: "child2parentSObjects ex_names ex_query_records ''Child'' = [''Parent'']"
    and p: "child2parentSObjects ex_names ex_query_records ''Parent'' = []"
    by code_simp+
  show ?thesis
    using c p
    by (auto simp: parent_rel_def calls_def ex_query_loader_def getDataLoader_def dictionary_def
          ex_names_def split: if_splits)
qed

lemma run_the: "x \<noteq> None \<Longrightarrow> x = Some (fst (the x), final_state x)"
  by (auto simp: final_state_def)

theorem dependency_order_witness:
  "loadData 3 ex_loader ex_state \<noteq> None
   \<and> steps_since ex_state (final_state (loadData 3 ex_loader ex_state)) =
       [LoadCalled ''Child'', LoadStarted ''Child'', LoadCalled ''Parent'', LoadStarted ''Parent'',
        ResolveStarted ''Parent'' [],
        BeforeCreating ''Parent'' [[(''name'', JStr ''Acme'')]],
        CreateReturned ''Parent'' [\<lparr>success = True, result_id = ''Parent0''\<rparr>],
        IdsWriteCalled ''Parent'' [''Parent0''],
        LoadDone ''Parent'' [JStr ''p1''] [''Parent0'']]
       @ ResolveStarted ''Child'' [(''p1'', ''Parent0'')]
       # [BeforeCreating ''Child'' [[(''parentRef'', JStr ''Parent0'')]],
          CreateReturned ''Child'' [\<lparr>success = True, result_id = ''Child1''\<rparr>],
          IdsWriteCalled ''Child'' [''Child1''],
          LoadDone ''Child'' [JStr ''c1''] [''Child1''], LoadCalled ''Parent'']
   \<and> (''Parent'', ''Child'') \<in> (parent_rel ex_loader)\<^sup>+
   \<and> [(''p1'', ''Parent0'')] = merged_ids
       [LoadCalled ''Child'', LoadStarted ''Child'', LoadCalled ''Parent'', LoadStarted ''Parent'',
        ResolveStarted ''Parent'' [],
        BeforeCreating ''Parent'' [[(''name'', JStr ''Acme'')]],
        CreateReturned ''Parent'' [\<lparr>success = True, result_id = ''Parent0''\<rparr>],
        IdsWriteCalled ''Parent'' [''Parent0''],
        LoadDone ''Parent'' [JStr ''p1''] [''Parent0'']]
   \<and> plain (map_of []) (get_prop (hd (sobject2records ex_state ''Parent'')) ''id'')
   \<and> map_of [(''p1'', ''Parent0'')] (to_text (get_prop (hd (sobject2records ex_state ''Parent'')) ''id''))
        = Some ''Parent0''
   \<and> deleteLoadedData 3 ex_loader ex_loaded_state \<noteq> None
   \<and> steps_since ex_loaded_state (final_state (deleteLoadedData 3 ex_loader ex_loaded_state)) =
       [DeleteCalled ''Child'', DeleteStarted ''Child'', DestroyCalled ''Child'', DeleteDone ''Child'',
        DeleteCalled ''Parent'', DeleteStarted ''Parent'', DeleteCalled ''Child'']
       @ DestroyCalled ''Parent'' # [DeleteDone ''Parent'']
   \<and> ''Child'' \<in> set (parent2child ex_loader ''Parent'')
   \<and> (DeleteSkipped ''Child'' \<in> set
         [DeleteCalled ''Child'', DeleteStarted ''Child'', DestroyCalled ''Child'', DeleteDone ''Child'',
          DeleteCalled ''Parent'', DeleteStarted ''Parent'', DeleteCalled ''Child'']
       \<or> DeleteDone ''Child'' \<in> set
         [DeleteCalled ''Child'', DeleteStarted ''Child'', DestroyCalled ''Child'', DeleteDone ''Child'',
          DeleteCalled ''Parent'', DeleteStarted ''Parent'', DeleteCalled ''Child''])"
proof -
  let ?pre = "[LoadCalled ''Child'', LoadStarted ''Child'', LoadCalled ''Parent'', LoadStarted ''Parent'',
        ResolveStarted ''Parent'' [],
        BeforeCreating ''Parent'' [[(''name'', JStr ''Acme'')]],
        CreateReturned ''Parent'' [\<lparr>success = True, result_id = ''Parent0''\<rparr>],
        IdsWriteCalled ''Parent'' [''Parent0''],
        LoadDone ''Parent'' [JStr ''p1''] [''Parent0'']]"
  let ?post = "[BeforeCreating ''Child'' [[(''parentRef'', JStr ''Parent0'')]],
          CreateReturned ''Child'' [\<lparr>success = True, result_id = ''Child1''\<rparr>],
          IdsWriteCalled ''Child'' [''Child1''],
          LoadDone ''Child'' [JStr ''c1''] [''Child1''], LoadCalled ''Parent'']"
  let ?dpre = "[DeleteCalled ''Child'', DeleteStarted ''Child'', DestroyCalled ''Child'', DeleteDone ''Child'',
        DeleteCalled ''Parent'', DeleteStarted ''Parent'', DeleteCalled ''Child'']"
  have L: "ex_loader = getDataLoader ex_remote [] ex_names ex_records"
    by (simp add: ex_loader_def)
  have l1: "loadData 3 ex_loader ex_state \<noteq> None" by code_simp
  have l2: "steps_since ex_state (final_state (loadData 3 ex_loader ex_state)) =
       ?pre @ ResolveStarted ''Child'' [(''p1'', ''Parent0'')] # ?post"
    by code_simp
  have l3: "(''Parent'', ''Child'') \<in> (parent_rel ex_loader)\<^sup>+"
    by (rule r_into_trancl) (simp add: ex_parent_rel)
  have l4: "plain (map_of []) (get_prop (hd (sobject2records ex_state ''Parent'')) ''id'')"
    and l5: "map_of [(''p1'', ''Parent0'')]
        (to_text (get_prop (hd (sobject2records ex_state ''Parent'')) ''id'')) = Some ''Parent0''"
    by code_simp+
  have d1: "deleteLoadedData 3 ex_loader ex_loaded_state \<noteq> None" by code_simp
  have d2: "steps_since ex_loaded_state (final_state (deleteLoadedData 3 ex_loader ex_loaded_state)) =
       ?dpre @ DestroyCalled ''Parent'' # [DeleteDone ''Parent'']"
    by code_simp
  have d3: "''Child'' \<in> set (parent2child ex_loader ''Parent'')" by code_simp
  from dependency_order [OF L ex_acyclic, of ex_state] run_the [OF l1] l2 l3
  have c1: "[(''p1'', ''Parent0'')] = merged_ids ?pre"
    by blast
  from dependency_order [OF L ex_acyclic, of ex_loaded_state] run_the [OF d1] d2 d3
  have c2: "DeleteSkipped ''Child'' \<in> set ?dpre \<or> DeleteDone ''Child'' \<in> set ?dpre"
    by blast
  from l1 l2 l3 l4 l5 c1 d1 d2 d3 c2 show ?thesis by blast
qed

text \<open>
  C1 as stated fails on an acyclic input in which the \<open>id\<close> of the parent's record is
  itself a query: the resolution of the parent replaces it by the \<open>Id\<close> the lookup
  finds, the merge reads that, and when the resolution of the child starts, after the
  merge of the parent, the dictionary has no entry for the \<open>id\<close> the record had.
\<close>

theorem dependency_order_counterexample:
  "succeeded (loadData 3 ex_query_loader ex_query_state)
   \<and> child2parent ex_query_loader ''Child'' = [''Parent'']
   \<and> child2parent ex_query_loader ''Parent'' = []
   \<and> steps_since ex_query_state (final_state (loadData 3 ex_query_loader ex_query_state)) =
       [LoadCalled ''Child'', LoadStarted ''Child'', LoadCalled ''Parent'', LoadStarted ''Parent'',
        ResolveStarted ''Parent'' [],
        BeforeCreating ''Parent'' [[(''name'', JStr ''Acme'')]],
        CreateReturned ''Parent'' [\<lparr>success = True, result_id = ''Parent0''\<rparr>],
        IdsWriteCalled ''Parent'' [''Parent0''],
        LoadDone ''Parent'' [JStr ''001''] [''Parent0''],
        ResolveStarted ''Child'' [(''001'', ''Parent0'')],
        BeforeCreating ''Child'' [[(''parentRef'', JStr ''001'')]],
        CreateReturned ''Child'' [\<lparr>success = True, result_id = ''Child1''\<rparr>],
        IdsWriteCalled ''Child'' [''Child1''],
        LoadDone ''Child'' [JStr ''c1''] [''Child1''], LoadCalled ''Parent'']
   \<and> sobject2records ex_query_state ''Parent''
        = [[(''id'', JStr ''SELECT Id FROM Account WHERE Name=Acme''), (''name'', JStr ''Acme'')]]
   \<and> map_of [(''001'', ''Parent0'')] ''SELECT Id FROM Account WHERE Name=Acme'' = None
   \<and> acyclic (parent_rel ex_query_loader)
   \<and> (''Parent'', ''Child'') \<in> (parent_rel ex_query_loader)\<^sup>+"
proof -
  have "acyclic (parent_rel ex_query_loader)"
    by (simp add: ex_query_parent_rel acyclic_insert wf_acyclic)
  moreover have "(''Parent'', ''Child'') \<in> (parent_rel ex_query_loader)\<^sup>+"
    by (rule r_into_trancl) (simp add: ex_query_parent_rel)
  moreover have "succeeded (loadData 3 ex_query_loader ex_query_state)"
    and "child2parent ex_query_loader ''Child'' = [''Parent'']"
    and "child2parent ex_query_loader ''Parent'' = []"
    and "steps_since ex_query_state (final_state (loadData 3 ex_query_loader ex_query_state)) =
       [LoadCalled ''Child'', LoadStarted ''Child'', LoadCalled ''Parent'', LoadStarted ''Parent'',
        ResolveStarted ''Parent'' [],
        BeforeCreating ''Parent'' [[(''name'', JStr ''Acme'')]],
        CreateReturned ''Parent'' [\<lparr>success = True, result_id = ''Parent0''\<rparr>],
        IdsWriteCalled ''Parent'' [''Parent0''],
        LoadDone ''Parent'' [JStr ''001''] [''Parent0''],
        ResolveStarted ''Child'' [(''001'', ''Parent0'')],
        BeforeCreating ''Child'' [[(''parentRef'', JStr ''001'')]],
        CreateReturned ''Child'' [\<lparr>success = True, result_id = ''Child1''\<rparr>],
        IdsWriteCalled ''Child'' [''Child1''],
        LoadDone ''Child'' [JStr ''c1''] [''Child1''], LoadCalled ''Parent'']"
    and "sobject2records ex_query_state ''Parent''
        = [[(''id'', JStr ''SELECT Id FROM Account WHERE Name=Acme''), (''name'', JStr ''Acme'')]]"
    and "map_of [(''001'', ''Parent0'')] ''SELECT Id FROM Account WHERE Name=Acme'' = None"
    by code_simp+
  ultimately show ?thesis by blast
qed

section \<open>How often a collection is worked on\<close>

lemma for_each_descent:
  assumes "for_each (walk c s nb b n) xs st = Some (r, st')" and "descent st = 0"
  shows "descent st' = 0"
  by (rule for_each_invariant [of "walk c s nb b n" xs st r st' "\<lambda>s. descent s = 0", OF assms])
     (rule walk_pending(2))

lemma walk_post_run:
  assumes q: "quiet c s b"
    and inj: "inj s" "inj c"
    and diff: "\<And>y z. c y \<noteq> s z"
    and run: "for_each (walk c s nb b n) xs st = Some (r, st')"
    and fresh: "memo st = Map.empty" "pending st = []"
  shows "count_list (steps_since st st') (s y) = (if c y \<in> set (steps_since st st') then 1 else 0)"
    and "c y \<in> set (steps_since st st') \<Longrightarrow> memo st' y \<noteq> None"
    and "r = Inr () \<Longrightarrow> y \<in> set xs \<Longrightarrow> count_list (steps_since st st') (s y) = 1"
proof -
  have spec: "\<And>y st r st'. walk c s nb b n y st = Some (r, st')
                \<Longrightarrow> walk_post c s st st' \<and> (r = Inr () \<longrightarrow> memo st' y = Some (Inr ()))"
    using walk_spec [OF q inj diff] by blast
  from walk_post_loop [of xs "walk c s nb b n" c s, OF spec run]
  have pl: "walk_post c s st st'"
    and ml: "r = Inr () \<longrightarrow> (\<forall>y\<in>set xs. memo st' y = Some (Inr ()))"
    by simp_all
  from pl fresh(2) obtain new where l:
    "trace st' = trace st @ new"
    "\<forall>y. count_list new (s y) = (if memo st y = None \<and> memo st' y \<noteq> None then 1 else 0)"
    "\<forall>y. c y \<in> set new \<longrightarrow> memo st' y \<noteq> None"
    "\<forall>y. s y \<in> set new \<longrightarrow> c y \<in> set new"
    unfolding walk_post_def by auto
  have new: "steps_since st st' = new" using l(1) by (rule steps_since_append)
  show "count_list (steps_since st st') (s y) = (if c y \<in> set (steps_since st st') then 1 else 0)"
  proof (cases "c y \<in> set new")
    case True
    with l(3) have "memo st' y \<noteq> None" by simp
    with l(2) fresh True new show ?thesis by simp
  next
    case False
    with l(4) have "s y \<notin> set new" by blast
    with False new show ?thesis by (simp add: count_list_0_iff)
  qed
  show "c y \<in> set (steps_since st st') \<Longrightarrow> memo st' y \<noteq> None"
    using l(3) new by simp
  show "r = Inr () \<Longrightarrow> y \<in> set xs \<Longrightarrow> count_list (steps_since st st') (s y) = 1"
    using ml l(2) fresh new by simp
qed

lemma memo_hit:
  "memo st x = Some outcome \<Longrightarrow> descent st = 0
     \<Longrightarrow> walk c s nb b (Suc k) x st = Some (outcome, emit (c x) st)"
  by (simp add: Let_def emit_def)

text \<open>
  C2. On an acyclic input the load and the deletion return, and in a run the function
  under the memoized one starts exactly once for a collection the memoized function is
  called for, and never for another, however often it is called; in a run that
  succeeds that is once for every collection. Every collection called for is in the
  cache at the end, and a further call for it returns the outcome held there and
  starts nothing.
\<close>

theorem work_once:
  assumes L: "L = getDataLoader conn tooling names recs" and acy: "acyclic (parent_rel L)"
  shows "(\<exists>n r. loadData n L st = Some r) \<and> (\<exists>n r. deleteLoadedData n L st = Some r)
       \<and> (\<forall>n res st' C.
            loadData n L st = Some (res, st') \<longrightarrow>
              count_list (steps_since st st') (LoadStarted C)
                = (if LoadCalled C \<in> set (steps_since st st') then 1 else 0)
            \<and> (succeeded (Some (res, st')) \<longrightarrow> C \<in> set names \<longrightarrow>
                 count_list (steps_since st st') (LoadStarted C) = 1)
            \<and> (LoadCalled C \<in> set (steps_since st st') \<longrightarrow>
                 (\<exists>outcome. memo st' C = Some outcome \<and>
                    (\<forall>k. loadSObjectData (Suc k) L C st' = Some (outcome, emit (LoadCalled C) st')))))
       \<and> (\<forall>n res st' C.
            deleteLoadedData n L st = Some (res, st') \<longrightarrow>
              count_list (steps_since st st') (DeleteStarted C)
                = (if DeleteCalled C \<in> set (steps_since st st') then 1 else 0)
            \<and> (succeeded (Some (res, st')) \<longrightarrow> C \<in> set names \<longrightarrow>
                 count_list (steps_since st st') (DeleteStarted C) = 1)
            \<and> (DeleteCalled C \<in> set (steps_since st st') \<longrightarrow>
                 (\<exists>outcome. memo st' C = Some outcome \<and>
                    (\<forall>k. deleteLoadedSObjectData (Suc k) L C st'
                           = Some (outcome, emit (DeleteCalled C) st')))))"
proof (intro conjI allI impI)
  show "\<exists>n r. loadData n L st = Some r" by (rule loadData_total [OF L acy])
  show "\<exists>n r. deleteLoadedData n L st = Some r" by (rule deleteLoadedData_total [OF L acy])
next
  fix n res st' C
  assume run: "loadData n L st = Some (res, st')"
  let ?st0 = "st\<lparr>old2newId := [], memo := Map.empty, pending := [], descent := 0\<rparr>"
  from run obtain o1 where loop:
    "for_each (walk LoadCalled LoadStarted (child2parent L) (load_records L) n) (sobjects L) ?st0
       = Some (o1, st')"
    and res: "res = (case o1 of Inl e \<Rightarrow> Inl e | Inr u \<Rightarrow> Inr (old2newId st'))"
    by (rule loadData_run) (simp add: load_is_walk)
  note w = walk_post_run [OF quiet_load inj_events(2) inj_events(1) _ loop, simplified]
  have s: "steps_since ?st0 st' = steps_since st st'" by (simp add: steps_since_def)
  have d: "descent st' = 0" using for_each_descent [OF loop] by simp
  show "count_list (steps_since st st') (LoadStarted C)
          = (if LoadCalled C \<in> set (steps_since st st') then 1 else 0)"
    using w(1) [of C] s by simp
  {
    assume "succeeded (Some (res, st'))" and C: "C \<in> set names"
    with res have "o1 = Inr ()" by (cases o1) (simp_all add: succeeded_def)
    moreover from C L have "C \<in> set (sobjects L)" by (simp add: getDataLoader_def)
    ultimately show "count_list (steps_since st st') (LoadStarted C) = 1"
      using w(3) [of C] s by simp
  }
  {
    assume "LoadCalled C \<in> set (steps_since st st')"
    with w(2) [of C] s obtain outcome where m: "memo st' C = Some outcome" by auto
    have "\<forall>k. loadSObjectData (Suc k) L C st' = Some (outcome, emit (LoadCalled C) st')"
      using memo_hit [OF m d] by (simp add: load_is_walk)
    with m show "\<exists>outcome. memo st' C = Some outcome \<and>
       (\<forall>k. loadSObjectData (Suc k) L C st' = Some (outcome, emit (LoadCalled C) st'))"
      by blast
  }
next
  fix n res st' C
  assume run: "deleteLoadedData n L st = Some (res, st')"
  let ?st0 = "st\<lparr>memo := Map.empty, pending := [], descent := 0\<rparr>"
  from run have loop:
    "for_each (walk DeleteCalled DeleteStarted (parent2child L) (delete_records L) n) (sobjects L) ?st0
       = Some (res, st')"
    by (simp add: deleteLoadedData_def delete_is_walk)
  note w = walk_post_run [OF quiet_delete inj_events(4) inj_events(3) _ loop, simplified]
  have s: "steps_since ?st0 st' = steps_since st st'" by (simp add: steps_since_def)
  have d: "descent st' = 0" using for_each_descent [OF loop] by simp
  show "count_list (steps_since st st') (DeleteStarted C)
          = (if DeleteCalled C \<in> set (steps_since st st') then 1 else 0)"
    using w(1) [of C] s by simp
  {
    assume "succeeded (Some (res, st'))" and C: "C \<in> set names"
    then have "res = Inr ()" by (cases res) (simp_all add: succeeded_def)
    moreover from C L have "C \<in> set (sobjects L)" by (simp add: getDataLoader_def)
    ultimately show "count_list (steps_since st st') (DeleteStarted C) = 1"
      using w(3) [of C] s by simp
  }
  {
    assume "DeleteCalled C \<in> set (steps_since st st')"
    with w(2) [of C] s obtain outcome where m: "memo st' C = Some outcome" by auto
    have "\<forall>k. deleteLoadedSObjectData (Suc k) L C st' = Some (outcome, emit (DeleteCalled C) st')"
      using memo_hit [OF m d] by (simp add: delete_is_walk)
    with m show "\<exists>outcome. memo st' C = Some outcome \<and>
       (\<forall>k. deleteLoadedSObjectData (Suc k) L C st' = Some (outcome, emit (DeleteCalled C) st'))"
      by blast
  }
qed

theorem work_once_witness:
  "loadData 3 ex_loader ex_state \<noteq> None
   \<and> succeeded (loadData 3 ex_loader ex_state)
   \<and> ''Parent'' \<in> set ex_names
   \<and> count_list (steps_since ex_state (final_state (loadData 3 ex_loader ex_state)))
        (LoadCalled ''Parent'') = 2
   \<and> count_list (steps_since ex_state (final_state (loadData 3 ex_loader ex_state)))
        (LoadStarted ''Parent'') = 1
   \<and> deleteLoadedData 3 ex_loader ex_loaded_state \<noteq> None
   \<and> succeeded (deleteLoadedData 3 ex_loader ex_loaded_state)
   \<and> ''Child'' \<in> set ex_names
   \<and> count_list (steps_since ex_loaded_state (final_state (deleteLoadedData 3 ex_loader ex_loaded_state)))
        (DeleteCalled ''Child'') = 2
   \<and> count_list (steps_since ex_loaded_state (final_state (deleteLoadedData 3 ex_loader ex_loaded_state)))
        (DeleteStarted ''Child'') = 1"
proof -
  have L: "ex_loader = getDataLoader ex_remote [] ex_names ex_records"
    by (simp add: ex_loader_def)
  have l1: "loadData 3 ex_loader ex_state \<noteq> None"
    and l2: "succeeded (loadData 3 ex_loader ex_state)"
    and l3: "count_list (steps_since ex_state (final_state (loadData 3 ex_loader ex_state)))
        (LoadCalled ''Parent'') = 2"
    by code_simp+
  have d1: "deleteLoadedData 3 ex_loader ex_loaded_state \<noteq> None"
    and d2: "succeeded (deleteLoadedData 3 ex_loader ex_loaded_state)"
    and d3: "count_list (steps_since ex_loaded_state (final_state (deleteLoadedData 3 ex_loader ex_loaded_state)))
        (DeleteCalled ''Child'') = 2"
    by code_simp+
  have n: "''Parent'' \<in> set ex_names" "''Child'' \<in> set ex_names"
    by (simp_all add: ex_names_def)
  have l2': "succeeded (Some (fst (the (loadData 3 ex_loader ex_state)),
               final_state (loadData 3 ex_loader ex_state)))"
    using run_the [OF l1, symmetric] l2 by simp
  have d2': "succeeded (Some (fst (the (deleteLoadedData 3 ex_loader ex_loaded_state)),
               final_state (deleteLoadedData 3 ex_loader ex_loaded_state)))"
    using run_the [OF d1, symmetric] d2 by simp
  from work_once [OF L ex_acyclic, of ex_state] run_the [OF l1] l2' n(1)
  have c1: "count_list (steps_since ex_state (final_state (loadData 3 ex_loader ex_state)))
        (LoadStarted ''Parent'') = 1"
    by blast
  from work_once [OF L ex_acyclic, of ex_loaded_state] run_the [OF d1] d2' n(2)
  have c2: "count_list (steps_since ex_loaded_state (final_state (deleteLoadedData 3 ex_loader ex_loaded_state)))
        (DeleteStarted ''Child'') = 1"
    by blast
  from l1 l2 l3 c1 d1 d2 d3 c2 n show ?thesis by blast
qed

section \<open>A failed batch create\<close>

lemma last_failureI:
  assumes "trace st' = trace st @ u"
    and "\<And>e err. e \<in> set u \<Longrightarrow> bad e err \<Longrightarrow> r = Inl err \<and> (\<exists>pre. u = pre @ [e])"
  shows "last_failure bad st r st'"
  unfolding last_failure_def using assms by blast

lemma last_failure_seq:
  assumes 1: "last_failure bad st (Inr v) s1" and 2: "last_failure bad s1 r st'"
  shows "last_failure bad st r st'"
proof -
  from 1 obtain u1 where u1: "trace s1 = trace st @ u1"
    "\<forall>e err. e \<in> set u1 \<longrightarrow> \<not> bad e err"
    unfolding last_failure_def by auto
  from 2 obtain u2 where u2: "trace st' = trace s1 @ u2"
    "\<forall>e err. e \<in> set u2 \<and> bad e err \<longrightarrow> r = Inl err \<and> (\<exists>pre. u2 = pre @ [e])"
    unfolding last_failure_def by auto
  show ?thesis
  proof (rule last_failureI)
    show "trace st' = trace st @ (u1 @ u2)" using u1(1) u2(1) by simp
  next
    fix e err assume "e \<in> set (u1 @ u2)" "bad e err"
    with u1(2) have "e \<in> set u2" by auto
    with \<open>bad e err\<close> u2(2) obtain pre where "r = Inl err" "u2 = pre @ [e]" by blast
    then have "r = Inl err \<and> u1 @ u2 = (u1 @ pre) @ [e]" by simp
    then show "r = Inl err \<and> (\<exists>pre. u1 @ u2 = pre @ [e])" by blast
  qed
qed

lemma last_failure_quiet:
  assumes "trace s1 = trace st @ u" and "\<forall>e err. e \<in> set u \<longrightarrow> \<not> bad e err"
    and "last_failure bad s1 r st'"
  shows "last_failure bad st r st'"
proof (rule last_failure_seq [where v = "()"])
  show "last_failure bad st (Inr ()) s1"
    using assms(1,2) by (intro last_failureI [of _ _ u]) auto
  show "last_failure bad s1 r st'" by (rule assms(3))
qed

lemma last_failure_trace:
  "last_failure bad st r st' \<Longrightarrow> trace st'' = trace st' \<Longrightarrow> last_failure bad st r st''"
  by (simp add: last_failure_def)

lemma last_failure_loop:
  assumes step: "\<And>x st r st'. x \<in> set xs \<Longrightarrow> f x st = Some (r, st') \<Longrightarrow> last_failure bad st r st'"
    and run: "for_each f xs st = Some (r, st')"
  shows "last_failure bad st r st'"
  using assms
proof (induction xs arbitrary: st)
  case Nil
  then show ?case by (intro last_failureI [of _ _ "[]"]) auto
next
  case (Cons x xs)
  from Cons.prems(2) obtain o1 s1 where f: "f x st = Some (o1, s1)"
    by (cases "f x st") auto
  have p1: "last_failure bad st o1 s1" using Cons.prems(1) [of x st o1 s1] f by simp
  show ?case
  proof (cases o1)
    case (Inl e)
    with f Cons.prems(2) have "r = o1" "st' = s1" by simp_all
    with p1 show ?thesis by simp
  next
    case (Inr v)
    with f Cons.prems(2) have rest: "for_each f xs s1 = Some (r, st')" by simp
    have "last_failure bad s1 r st'"
    proof (rule Cons.IH [OF _ rest])
      fix y st r st'
      assume "y \<in> set xs" "f y st = Some (r, st')"
      then show "last_failure bad st r st'" using Cons.prems(1) [of y st r st'] by simp
    qed
    with p1 Inr show ?thesis using last_failure_seq by blast
  qed
qed

lemma walk_last_failure:
  assumes body: "\<And>x st o1 st'. b x st = (o1, st') \<Longrightarrow> last_failure bad st o1 st'"
    and quietc: "\<And>x err. \<not> bad (c x) err \<and> \<not> bad (s x) err"
    and run: "walk c s nb b n x st = Some (r, st')"
  shows "last_failure bad st r st'"
  using run
proof (induction n arbitrary: x st r st')
  case 0
  then show ?case by simp
next
  case (Suc n)
  let ?st2 = "(emit (s x) (emit (c x) st))\<lparr>pending := x # pending st, descent := Suc (descent st)\<rparr>"
  have single: "last_failure bad st r ((emit (c x) st)\<lparr>descent := 0\<rparr>)"
    using quietc by (intro last_failureI [of _ _ "[c x]"]) auto
  have loop: "last_failure bad ?st2 o2 s2"
    if "for_each (walk c s nb b n) (nb x) ?st2 = Some (o2, s2)" for o2 s2
  proof (rule last_failure_loop [OF _ that])
    fix y st r st'
    assume "walk c s nb b n y st = Some (r, st')"
    then show "last_failure bad st r st'" by (rule Suc.IH)
  qed
  have start: "last_failure bad st r st'" if "last_failure bad ?st2 r st'"
  proof (rule last_failure_quiet [OF _ _ that])
    show "trace ?st2 = trace st @ [c x, s x]" by simp
    show "\<forall>e err. e \<in> set [c x, s x] \<longrightarrow> \<not> bad e err" using quietc by auto
  qed
  from Suc.prems show ?case
  proof (cases rule: walk_cases)
    case hit
    with single show ?thesis by simp
  next
    case exhausted
    with single show ?thesis by simp
  next
    case (failed e s2)
    from loop [OF failed(3)] failed(4) have "last_failure bad ?st2 r s2" by simp
    then have "last_failure bad ?st2 r st'"
      by (rule last_failure_trace) (simp add: failed(5))
    then show ?thesis by (rule start)
  next
    case (ran s2 s3)
    from body [OF ran(4)] loop [OF ran(3)] have "last_failure bad ?st2 r s3"
      using last_failure_seq by blast
    then have "last_failure bad ?st2 r st'"
      by (rule last_failure_trace) (simp add: ran(5))
    then show ?thesis by (rule start)
  qed
qed

lemma load_records_failure:
  assumes "load_records L x st = (o1, st')"
  shows "last_failure create_failure st o1 st'"
  using assms
proof (cases rule: load_records_cases)
  case (unresolved e)
  then show ?thesis by (intro last_failureI [of _ _ "[ResolveStarted x (old2newId st)]"]) auto
next
  case (rejected m fnd resolved)
  then show ?thesis
    by (intro last_failureI [of _ _ "[ResolveStarted x (old2newId st),
          BeforeCreating x (map (delete_prop ''id'') resolved)]"]) auto
next
  case (failed rs fnd resolved)
  let ?u = "[ResolveStarted x (old2newId st), BeforeCreating x (map (delete_prop ''id'') resolved),
             CreateReturned x rs]"
  show ?thesis
  proof (rule last_failureI)
    show "trace st' = trace st @ ?u" by (rule failed(4))
  next
    fix e err
    assume "e \<in> set ?u" "create_failure e err"
    with failed(2) have "o1 = Inl err \<and> ?u = [ResolveStarted x (old2newId st),
        BeforeCreating x (map (delete_prop ''id'') resolved)] @ [e]"
      by auto
    then show "o1 = Inl err \<and> (\<exists>pre. ?u = pre @ [e])" by blast
  qed
next
  case (created rs fnd resolved)
  then show ?thesis
    by (intro last_failureI [of _ _ "[ResolveStarted x (old2newId st),
          BeforeCreating x (map (delete_prop ''id'') resolved),
          CreateReturned x rs, IdsWriteCalled x (map result_id rs),
          LoadDone x (map (\<lambda>r. get_prop r ''id'') resolved) (map result_id rs)]"]) auto
qed

lemma load_failure_run:
  assumes run: "loadData n L st = Some (res, st')"
    and ev: "CreateReturned C rs \<in> set (steps_since st st')"
    and bad: "list_ex (\<lambda>r. \<not> success r) rs"
  shows "res = Inl (CreateFailed C)" and "\<exists>pre. steps_since st st' = pre @ [CreateReturned C rs]"
proof -
  let ?st0 = "st\<lparr>old2newId := [], memo := Map.empty, pending := [], descent := 0\<rparr>"
  from run obtain o1 where loop:
    "for_each (walk LoadCalled LoadStarted (child2parent L) (load_records L) n) (sobjects L) ?st0
       = Some (o1, st')"
    and res: "res = (case o1 of Inl e \<Rightarrow> Inl e | Inr u \<Rightarrow> Inr (old2newId st'))"
    by (rule loadData_run) (simp add: load_is_walk)
  have "last_failure create_failure ?st0 o1 st'"
  proof (rule last_failure_loop [OF _ loop])
    fix y st r st'
    assume "walk LoadCalled LoadStarted (child2parent L) (load_records L) n y st = Some (r, st')"
    then show "last_failure create_failure st r st'"
      by (rule walk_last_failure [rotated 2]) (auto intro: load_records_failure)
  qed
  then obtain u where u: "trace st' = trace ?st0 @ u"
    "\<forall>e err. e \<in> set u \<and> create_failure e err \<longrightarrow> o1 = Inl err \<and> (\<exists>pre. u = pre @ [e])"
    unfolding last_failure_def by auto
  from u(1) have s: "steps_since st st' = u" by (simp add: steps_since_def)
  from bad have "create_failure (CreateReturned C rs) (CreateFailed C)" by simp
  with u(2) ev s have "o1 = Inl (CreateFailed C)" "\<exists>pre. u = pre @ [CreateReturned C rs]"
    by blast+
  with res s show "res = Inl (CreateFailed C)"
    and "\<exists>pre. steps_since st st' = pre @ [CreateReturned C rs]" by simp_all
qed

lemma load_marks_walk:
  assumes init: "load_marks f0 b st"
    and run: "loadSObjectData n L x st = Some (r, st')"
  shows "load_marks f0 b st'"
proof (rule walk_invariant [where I = "load_marks f0 b" and c = LoadCalled and s = LoadStarted
        and nb = "child2parent L" and b = "load_records L" and st = st and n = n and x = x
        and r = r])
  show "quiet LoadCalled LoadStarted (load_records L)" by (rule quiet_load)
  show "inj LoadStarted" "inj LoadCalled" by (rule inj_events)+
  show "\<And>y z. LoadCalled y \<noteq> LoadStarted z" by simp
  show "load_marks f0 b st" by (rule init)
  show "walk LoadCalled LoadStarted (child2parent L) (load_records L) n x st = Some (r, st')"
    using run by (simp add: load_is_walk)
next
  fix x st
  assume "load_marks f0 b st"
  then show "load_marks f0 b (emit (LoadCalled x) st) \<and> load_marks f0 b (emit (LoadStarted x) st)"
    unfolding load_marks_def by (auto simp: emit_def)
next
  fix st :: "'a state" and p d
  assume "load_marks f0 b st"
  then show "load_marks f0 b (st\<lparr>pending := p\<rparr>) \<and> load_marks f0 b (st\<lparr>descent := d\<rparr>)"
    unfolding load_marks_def by simp
next
  fix x st e
  assume "load_marks f0 b st" "memo st x = None"
  then show "load_marks f0 b (st\<lparr>memo := (memo st)(x \<mapsto> Inl e)\<rparr>)"
    unfolding load_marks_def by fastforce
next
  fix x st o1 st'
  assume i: "load_marks f0 b st" and none: "memo st x = None"
    and body: "load_records L x st = (o1, st')"
  from i obtain t where t: "trace st = b @ t"
    "\<forall>C. merged C t \<or> written C t \<or> id_files st C \<noteq> f0 C \<longrightarrow> memo st C = Some (Inr ())"
    "\<forall>C rs. CreateReturned C rs \<in> set t \<and> list_ex (\<lambda>r. \<not> success r) rs
           \<longrightarrow> memo st C = Some (Inl (CreateFailed C))"
    unfolding load_marks_def by blast
  from t(2) none have x1: "\<not> merged x t" "\<not> written x t" "id_files st x = f0 x"
    by auto
  from t(3) none have x2: "\<forall>rs. CreateReturned x rs \<in> set t \<longrightarrow> \<not> list_ex (\<lambda>r. \<not> success r) rs"
    by auto
  from body show "load_marks f0 b (st'\<lparr>memo := (memo st')(x \<mapsto> o1)\<rparr>)"
  proof (cases rule: load_records_cases)
    case (unresolved e)
    with t x1 x2 show ?thesis
      unfolding load_marks_def
      by (intro exI [of _ "t @ [ResolveStarted x (old2newId st)]"]) auto
  next
    case (rejected m fnd resolved)
    with t x1 x2 show ?thesis
      unfolding load_marks_def
      by (intro exI [of _ "t @ [ResolveStarted x (old2newId st),
            BeforeCreating x (map (delete_prop ''id'') resolved)]"]) auto
  next
    case (failed rs fnd resolved)
    with t x1 x2 show ?thesis
      unfolding load_marks_def
      by (intro exI [of _ "t @ [ResolveStarted x (old2newId st),
            BeforeCreating x (map (delete_prop ''id'') resolved), CreateReturned x rs]"]) auto
  next
    case (created rs fnd resolved)
    with t x1 x2 show ?thesis
      unfolding load_marks_def
      by (intro exI [of _ "t @ [ResolveStarted x (old2newId st),
            BeforeCreating x (map (delete_prop ''id'') resolved),
            CreateReturned x rs, IdsWriteCalled x (map result_id rs),
            LoadDone x (map (\<lambda>r. get_prop r ''id'') resolved) (map result_id rs)]"]) auto
  qed
qed

lemma load_marks_run:
  assumes run: "loadData n L st = Some (res, st')"
  shows "load_marks (id_files st) (trace st) st'"
proof -
  let ?st0 = "st\<lparr>old2newId := [], memo := Map.empty, pending := [], descent := 0\<rparr>"
  from run obtain o1 where loop:
    "for_each (loadSObjectData n L) (sobjects L) ?st0 = Some (o1, st')"
    by (rule loadData_run)
  have init: "load_marks (id_files st) (trace st) ?st0"
    by (simp add: load_marks_def)
  show ?thesis
    by (rule for_each_invariant [of "loadSObjectData n L" "sobjects L" _ o1 st'
          "load_marks (id_files st) (trace st)", OF loop init]) (rule load_marks_walk)
qed

text \<open>
  C3. On an acyclic input a load returns. When, in a load that returns, whatever the
  input, the batch create of a collection \<open>C\<close> answers with a record that is not a
  success, the load fails with \<open>CreateFailed C\<close>; that answer is its last step, right
  after the log of the records sent and the start of the resolution of \<open>C\<close>; the
  dictionary at the end is the one the resolution of \<open>C\<close> started with, which is the
  one the merges before it have built; among the steps of the run there is no merge
  of identifiers of \<open>C\<close> and no writing of its identifier file; and the file is what
  it was before the run.
\<close>

theorem create_failure_aborts:
  "(L = getDataLoader conn tooling names recs \<longrightarrow> acyclic (parent_rel L)
      \<longrightarrow> (\<exists>k r. loadData k L st = Some r))
   \<and> (loadData n L st = Some (res, st') \<longrightarrow>
      CreateReturned C rs \<in> set (steps_since st st') \<longrightarrow>
      list_ex (\<lambda>r. \<not> success r) rs \<longrightarrow>
        res = Inl (CreateFailed C)
      \<and> (\<exists>pre ids sent.
            steps_since st st'
              = pre @ [ResolveStarted C ids, BeforeCreating C sent, CreateReturned C rs]
          \<and> ids = merged_ids pre \<and> old2newId st' = ids)
      \<and> \<not> merged C (steps_since st st') \<and> \<not> written C (steps_since st st')
      \<and> id_files st' C = id_files st C)"
proof (intro conjI impI)
  assume "L = getDataLoader conn tooling names recs" and "acyclic (parent_rel L)"
  then show "\<exists>k r. loadData k L st = Some r" by (rule loadData_total)
next
  assume run: "loadData n L st = Some (res, st')"
    and ev: "CreateReturned C rs \<in> set (steps_since st st')"
    and bad: "list_ex (\<lambda>r. \<not> success r) rs"
  note f = load_failure_run [OF run ev bad]
  show "res = Inl (CreateFailed C)" by (rule f(1))
  let ?G = "load_guard L (sobject2records st)"
  from load_order_run [OF run] obtain t where t:
    "trace st' = trace st @ t" "each_after ?G t" "old2newId st' = merged_ids t"
    unfolding load_order_def by blast
  from t(1) have s: "steps_since st st' = t" by (rule steps_since_append)
  with f(2) obtain q where q: "t = q @ [CreateReturned C rs]" by auto
  with t(2) have "?G q (CreateReturned C rs)" unfolding each_after_def by blast
  then obtain pre ids sent where pre: "q = pre @ [ResolveStarted C ids, BeforeCreating C sent]"
    by auto
  with q have t': "t = pre @ [ResolveStarted C ids, BeforeCreating C sent, CreateReturned C rs]"
    by simp
  then have "t = pre @ ResolveStarted C ids # [BeforeCreating C sent, CreateReturned C rs]"
    by simp
  with t(2) have "?G pre (ResolveStarted C ids)" unfolding each_after_def by blast
  then have ids: "ids = merged_ids pre" by simp
  from t(3) t' ids have "old2newId st' = ids" by (simp add: merged_ids_append)
  with t' ids s
  show "\<exists>pre ids sent.
          steps_since st st'
            = pre @ [ResolveStarted C ids, BeforeCreating C sent, CreateReturned C rs]
        \<and> ids = merged_ids pre \<and> old2newId st' = ids"
    by blast
  from load_marks_run [OF run] s obtain u where u: "trace st' = trace st @ u"
    "\<forall>C. merged C u \<or> written C u \<or> id_files st' C \<noteq> id_files st C
           \<longrightarrow> memo st' C = Some (Inr ())"
    "\<forall>C rs. CreateReturned C rs \<in> set u \<and> list_ex (\<lambda>r. \<not> success r) rs
           \<longrightarrow> memo st' C = Some (Inl (CreateFailed C))"
    unfolding load_marks_def by blast
  from u(1) have su: "steps_since st st' = u" by (rule steps_since_append)
  with u(3) ev bad have m: "memo st' C = Some (Inl (CreateFailed C))" by blast
  with u(2) su show "\<not> merged C (steps_since st st')"
    and "\<not> written C (steps_since st st')"
    and "id_files st' C = id_files st C"
    by auto
qed

theorem create_failure_aborts_witness:
  "ex_failing_loader ''Child''
      = getDataLoader (ex_remote\<lparr>create_records := ex_create_failing ''Child''\<rparr>) [] ex_names ex_records
   \<and> acyclic (parent_rel (ex_failing_loader ''Child''))
   \<and> loadData 3 (ex_failing_loader ''Child'') ex_state \<noteq> None
   \<and> CreateReturned ''Child'' [\<lparr>success = False, result_id = ''Child1''\<rparr>]
       \<in> set (steps_since ex_state (final_state (loadData 3 (ex_failing_loader ''Child'') ex_state)))
   \<and> list_ex (\<lambda>r. \<not> success r) [\<lparr>success = False, result_id = ''Child1''\<rparr>]
   \<and> fst (the (loadData 3 (ex_failing_loader ''Child'') ex_state)) = Inl (CreateFailed ''Child'')
   \<and> \<not> merged ''Child''
         (steps_since ex_state (final_state (loadData 3 (ex_failing_loader ''Child'') ex_state)))
   \<and> \<not> written ''Child''
         (steps_since ex_state (final_state (loadData 3 (ex_failing_loader ''Child'') ex_state)))
   \<and> id_files (final_state (loadData 3 (ex_failing_loader ''Child'') ex_state)) ''Child''
        = id_files ex_state ''Child''
   \<and> old2newId (final_state (loadData 3 (ex_failing_loader ''Child'') ex_state))
        = [(''p1'', ''Parent0'')]
   \<and> sobject2records ex_state ''Child'' = [[(''id'', JStr ''c1''), (''parentRef'', JStr ''p1'')]]
   \<and> id_files (final_state (loadData 3 (ex_failing_loader ''Child'') ex_state)) ''Parent''
        = Ids [''Parent0'']"
proof -
  let ?L = "ex_failing_loader ''Child''"
  have L: "?L = getDataLoader (ex_remote\<lparr>create_records := ex_create_failing ''Child''\<rparr>) []
                  ex_names ex_records"
    by (simp add: ex_failing_loader_def)
  have l1: "loadData 3 ?L ex_state \<noteq> None" by code_simp
  have l2: "CreateReturned ''Child'' [\<lparr>success = False, result_id = ''Child1''\<rparr>]
       \<in> set (steps_since ex_state (final_state (loadData 3 ?L ex_state)))"
    by code_simp
  have l3: "list_ex (\<lambda>r. \<not> success r) [\<lparr>success = False, result_id = ''Child1''\<rparr>]"
    by simp
  have l4: "id_files (final_state (loadData 3 ?L ex_state)) ''Parent'' = Ids [''Parent0'']"
    and l5: "old2newId (final_state (loadData 3 ?L ex_state)) = [(''p1'', ''Parent0'')]"
    and l6: "sobject2records ex_state ''Child''
               = [[(''id'', JStr ''c1''), (''parentRef'', JStr ''p1'')]]"
    by code_simp+
  note a = ex_failing_acyclic [of "''Child''"]
  from create_failure_aborts [where L = ?L and st = ex_state and n = 3
      and res = "fst (the (loadData 3 ?L ex_state))"
      and st' = "final_state (loadData 3 ?L ex_state)"
      and C = "''Child''" and rs = "[\<lparr>success = False, result_id = ''Child1''\<rparr>]"]
    run_the [OF l1] l2 l3
  have "fst (the (loadData 3 ?L ex_state)) = Inl (CreateFailed ''Child'')"
    and "\<not> merged ''Child'' (steps_since ex_state (final_state (loadData 3 ?L ex_state)))"
    and "\<not> written ''Child'' (steps_since ex_state (final_state (loadData 3 ?L ex_state)))"
    and "id_files (final_state (loadData 3 ?L ex_state)) ''Child'' = id_files ex_state ''Child''"
    by blast+
  with L a l1 l2 l3 l4 l5 l6 show ?thesis by blast
qed

section \<open>The stored records\<close>

lemma delete_prop_absent: "k \<notin> fst ` set (delete_prop k r)"
  by (auto simp: delete_prop_def)

lemma delete_records_store: "sobject2records (snd (delete_records L x s)) = sobject2records s"
proof -
  obtain o1 s' where b: "delete_records L x s = (o1, s')" by (cases "delete_records L x s")
  from b have "sobject2records s' = sobject2records s"
    by (cases rule: delete_records_cases) (auto simp: emit_def)
  with b show ?thesis by simp
qed

lemma delete_keeps_records:
  assumes "deleteLoadedData n L st = Some (res, st')"
  shows "sobject2records st' = sobject2records st"
proof -
  let ?I = "\<lambda>s. sobject2records s = sobject2records st"
  let ?st0 = "st\<lparr>memo := Map.empty, pending := [], descent := 0\<rparr>"
  from assms have loop:
    "for_each (walk DeleteCalled DeleteStarted (parent2child L) (delete_records L) n) (sobjects L)
       ?st0 = Some (res, st')"
    by (simp add: deleteLoadedData_def delete_is_walk)
  have "?I st'"
  proof (rule for_each_invariant [of _ _ _ _ _ ?I, OF loop])
    show "?I ?st0" by simp
  next
    fix x s o1 s'
    assume i: "?I s"
      and w: "walk DeleteCalled DeleteStarted (parent2child L) (delete_records L) n x s = Some (o1, s')"
    show "?I s'"
      by (rule walk_preserves [of ?I "delete_records L", OF _ _ _ i w])
         (simp_all add: emit_def delete_records_store)
  qed
  then show ?thesis .
qed

lemma delete_records_files: "id_files (snd (delete_records L x s)) = id_files s"
proof -
  obtain o1 s' where b: "delete_records L x s = (o1, s')" by (cases "delete_records L x s")
  from b have "id_files s' = id_files s"
    by (cases rule: delete_records_cases) (auto simp: emit_def)
  with b show ?thesis by simp
qed

lemma delete_keeps_files:
  assumes "deleteLoadedData n L st = Some (res, st')"
  shows "id_files st' = id_files st"
proof -
  let ?I = "\<lambda>s. id_files s = id_files st"
  let ?st0 = "st\<lparr>memo := Map.empty, pending := [], descent := 0\<rparr>"
  from assms have loop:
    "for_each (walk DeleteCalled DeleteStarted (parent2child L) (delete_records L) n) (sobjects L)
       ?st0 = Some (res, st')"
    by (simp add: deleteLoadedData_def delete_is_walk)
  have "?I st'"
  proof (rule for_each_invariant [of _ _ _ _ _ ?I, OF loop])
    show "?I ?st0" by simp
  next
    fix x s o1 s'
    assume i: "?I s"
      and w: "walk DeleteCalled DeleteStarted (parent2child L) (delete_records L) n x s = Some (o1, s')"
    show "?I s'"
      by (rule walk_preserves [of ?I "delete_records L", OF _ _ _ i w])
         (simp_all add: emit_def delete_records_files)
  qed
  then show ?thesis .
qed

lemma load_keeps_lengths:
  assumes "loadData n L st = Some (res, st')"
  shows "length (sobject2records st' C) = length (sobject2records st C)"
    and "\<not> resolving C (steps_since st st') \<Longrightarrow> sobject2records st' C = sobject2records st C"
proof -
  let ?I = "\<lambda>s. \<exists>t. trace s = trace st @ t
      \<and> (\<forall>C. length (sobject2records s C) = length (sobject2records st C))
      \<and> (\<forall>C. sobject2records s C \<noteq> sobject2records st C \<longrightarrow> resolving C t)"
  let ?st0 = "st\<lparr>old2newId := [], memo := Map.empty, pending := [], descent := 0\<rparr>"
  from assms obtain o1 where loop:
    "for_each (walk LoadCalled LoadStarted (child2parent L) (load_records L) n) (sobjects L) ?st0
       = Some (o1, st')"
    by (rule loadData_run) (simp add: load_is_walk)
  have body: "?I (snd (load_records L x s))" if i: "?I s" for x s
  proof -
    obtain o1 s' where b: "load_records L x s = (o1, s')" by (cases "load_records L x s")
    from i obtain t where t: "trace s = trace st @ t"
      "\<forall>C. length (sobject2records s C) = length (sobject2records st C)"
      "\<forall>C. sobject2records s C \<noteq> sobject2records st C \<longrightarrow> resolving C t"
      by blast
    note frame = load_records_frame [OF b]
    from frame(3) obtain u where u: "trace s' = trace s @ ResolveStarted x (old2newId s) # u"
      by blast
    have "trace s' = trace st @ (t @ ResolveStarted x (old2newId s) # u)"
      using t(1) u by simp
    moreover have "\<forall>C. length (sobject2records s' C) = length (sobject2records st C)"
      using frame(4,5) t(2) by metis
    moreover have "\<forall>C. sobject2records s' C \<noteq> sobject2records st C
        \<longrightarrow> resolving C (t @ ResolveStarted x (old2newId s) # u)"
    proof (intro allI impI)
      fix C assume "sobject2records s' C \<noteq> sobject2records st C"
      with frame(4) t(3) show "resolving C (t @ ResolveStarted x (old2newId s) # u)"
        by (cases "C = x") auto
    qed
    ultimately have "?I s'" by blast
    with b show ?thesis by simp
  qed
  have "?I st'"
  proof (rule for_each_invariant [of _ _ _ _ _ ?I, OF loop])
    show "?I ?st0" by simp
  next
    fix x s o1 s'
    assume i: "?I s"
      and w: "walk LoadCalled LoadStarted (child2parent L) (load_records L) n x s = Some (o1, s')"
    show "?I s'"
    proof (rule walk_preserves [of ?I "load_records L", OF _ _ _ i w])
      show "\<And>e s. ?I s \<Longrightarrow> ?I (emit e s)" by (auto simp: emit_def)
      show "\<And>s m p d. ?I s \<Longrightarrow> ?I (s\<lparr>memo := m, pending := p, descent := d\<rparr>)" by simp
      show "\<And>x s. ?I s \<Longrightarrow> ?I (snd (load_records L x s))" by (rule body)
    qed
  qed
  then obtain t where t: "trace st' = trace st @ t"
    "\<forall>C. length (sobject2records st' C) = length (sobject2records st C)"
    "\<forall>C. sobject2records st' C \<noteq> sobject2records st C \<longrightarrow> resolving C t"
    by blast
  from t(2) show "length (sobject2records st' C) = length (sobject2records st C)" by simp
  from t(1) have "steps_since st st' = t" by (simp add: steps_since_def)
  with t(3) show "\<not> resolving C (steps_since st st') \<Longrightarrow> sobject2records st' C = sobject2records st C"
    by auto
qed

lemma sent_records_mono: "sent_records L recs t C sent \<Longrightarrow> sent_records L recs (t @ u) C sent"
  unfolding sent_records_def by auto

lemma stored_walk:
  assumes init: "stored_when_done L recs b st"
    and run: "walk LoadCalled LoadStarted (child2parent L) (load_records L) n x st = Some (r, st')"
  shows "stored_when_done L recs b st'"
proof (rule walk_invariant [where I = "stored_when_done L recs b" and c = LoadCalled and s = LoadStarted
        and nb = "child2parent L" and b = "load_records L" and st = st and n = n and x = x
        and r = r])
  show "quiet LoadCalled LoadStarted (load_records L)" by (rule quiet_load)
  show "inj LoadStarted" "inj LoadCalled" by (rule inj_events)+
  show "\<And>y z. LoadCalled y \<noteq> LoadStarted z" by simp
  show "stored_when_done L recs b st" by (rule init)
  show "walk LoadCalled LoadStarted (child2parent L) (load_records L) n x st = Some (r, st')"
    by (rule run)
next
  fix x st
  assume "stored_when_done L recs b st"
  then obtain t where t: "trace st = b @ t"
    "\<forall>y. sobject2records st y \<noteq> recs y \<longrightarrow> resolving y t"
    "\<forall>y. resolving y t \<longrightarrow> memo st y \<noteq> None"
    "\<forall>C. memo st C = Some (Inr ()) \<longrightarrow> sent_records L recs t C (sobject2records st C)"
    unfolding stored_when_done_def by blast
  have "stored_when_done L recs b (emit e st)" if "\<not> is_resolve y e" "\<And>y. \<not> is_resolve y e" for e y
    unfolding stored_when_done_def
    using t that(2) by (intro exI [of _ "t @ [e]"]) (auto simp: emit_def sent_records_mono)
  then show "stored_when_done L recs b (emit (LoadCalled x) st)
           \<and> stored_when_done L recs b (emit (LoadStarted x) st)"
    by simp
next
  fix st :: "'a state" and p d
  assume "stored_when_done L recs b st"
  then show "stored_when_done L recs b (st\<lparr>pending := p\<rparr>)
           \<and> stored_when_done L recs b (st\<lparr>descent := d\<rparr>)"
    unfolding stored_when_done_def by simp
next
  fix x st e
  assume "stored_when_done L recs b st" "memo st x = None"
  then show "stored_when_done L recs b (st\<lparr>memo := (memo st)(x \<mapsto> Inl e)\<rparr>)"
    unfolding stored_when_done_def by auto
next
  fix x st o1 st'
  assume i: "stored_when_done L recs b st" and none: "memo st x = None"
    and body: "load_records L x st = (o1, st')"
  from i obtain t where t: "trace st = b @ t"
    "\<forall>y. sobject2records st y \<noteq> recs y \<longrightarrow> resolving y t"
    "\<forall>y. resolving y t \<longrightarrow> memo st y \<noteq> None"
    "\<forall>C. memo st C = Some (Inr ()) \<longrightarrow> sent_records L recs t C (sobject2records st C)"
    unfolding stored_when_done_def by blast
  from t(3) none have nx: "\<not> resolving x t" by auto
  with t(2) have rx: "sobject2records st x = recs x" by auto
  note frame = load_records_frame [OF body]
  from frame(3) obtain u where u: "trace st' = trace st @ ResolveStarted x (old2newId st) # u"
    "\<forall>y. resolving y u \<longrightarrow> y = x"
    by blast
  let ?t = "t @ ResolveStarted x (old2newId st) # u"
  let ?st' = "st'\<lparr>memo := (memo st')(x \<mapsto> o1)\<rparr>"
  have sent: "sent_records L recs ?t x (sobject2records st' x)" if "o1 = Inr ()"
    using body
  proof (cases rule: load_records_cases)
    case (created rs fnd resolved)
    with u(1) rx show ?thesis
      unfolding sent_records_def
      by (intro exI [of _ "old2newId st"]) (auto intro: exI [of _ "remote_state st"])
  qed (use that in simp_all)
  show "stored_when_done L recs b ?st'"
    unfolding stored_when_done_def
  proof (intro exI [of _ ?t] conjI allI impI)
    show "trace ?st' = b @ ?t" using u(1) t(1) by simp
  next
    fix y assume "sobject2records ?st' y \<noteq> recs y"
    with frame(4) t(2) show "resolving y ?t" by (cases "y = x") auto
  next
    fix y assume "resolving y ?t"
    with u(2) t(3) frame(1) show "memo ?st' y \<noteq> None" by (cases "y = x") auto
  next
    fix C assume c: "memo ?st' C = Some (Inr ())"
    show "sent_records L recs ?t C (sobject2records ?st' C)"
    proof (cases "C = x")
      case True
      with c sent show ?thesis by simp
    next
      case False
      with c frame(1) have "memo st C = Some (Inr ())" by simp
      with t(4) have "sent_records L recs t C (sobject2records st C)" by simp
      with frame(4) False show ?thesis by (simp add: sent_records_mono)
    qed
  qed
qed

lemma stored_run:
  assumes run: "loadData n L st = Some (res, st')"
    and ok: "succeeded (Some (res, st'))" and C: "C \<in> set (sobjects L)"
  shows "sent_records L (sobject2records st) (steps_since st st') C (sobject2records st' C)"
proof -
  let ?st0 = "st\<lparr>old2newId := [], memo := Map.empty, pending := [], descent := 0\<rparr>"
  from run obtain o1 where loop:
    "for_each (walk LoadCalled LoadStarted (child2parent L) (load_records L) n) (sobjects L) ?st0
       = Some (o1, st')"
    and res: "res = (case o1 of Inl e \<Rightarrow> Inl e | Inr u \<Rightarrow> Inr (old2newId st'))"
    by (rule loadData_run) (simp add: load_is_walk)
  from ok res have o1: "o1 = Inr ()" by (cases o1) (simp_all add: succeeded_def)
  have spec: "\<And>y st r st'.
      walk LoadCalled LoadStarted (child2parent L) (load_records L) n y st = Some (r, st')
        \<Longrightarrow> walk_post LoadCalled LoadStarted st st' \<and> (r = Inr () \<longrightarrow> memo st' y = Some (Inr ()))"
    using walk_spec [OF quiet_load inj_events(2) inj_events(1)] by blast
  from walk_post_loop [of "sobjects L" _ LoadCalled LoadStarted, OF spec loop] o1 C
  have m: "memo st' C = Some (Inr ())" by simp
  have "stored_when_done L (sobject2records st) (trace st) st'"
  proof (rule for_each_invariant [of _ _ _ _ _ "stored_when_done L (sobject2records st) (trace st)",
        OF loop])
    show "stored_when_done L (sobject2records st) (trace st) ?st0"
      by (simp add: stored_when_done_def)
  next
    fix x s o1 s'
    assume "stored_when_done L (sobject2records st) (trace st) s"
      and "walk LoadCalled LoadStarted (child2parent L) (load_records L) n x s = Some (o1, s')"
    then show "stored_when_done L (sobject2records st) (trace st) s'" by (rule stored_walk)
  qed
  then obtain t where "trace st' = trace st @ t"
    "\<forall>C. memo st' C = Some (Inr ()) \<longrightarrow> sent_records L (sobject2records st) t C (sobject2records st' C)"
    unfolding stored_when_done_def by blast
  with m show ?thesis by (simp add: steps_since_def)
qed

text \<open>
  C9, as amended. A deletion leaves the stored records of every collection as they
  are. A load keeps the number of records of every collection and leaves alone the
  records of a collection whose resolution it does not start. After a load that
  succeeds, the stored records of a collection of the loader are the records that
  were sent to create for it: the records it had before the load, every field
  resolved with the dictionary of the moment its resolution started and with the
  answers of the remote store, in some state of it, to the lookups, and the \<open>id\<close>
  deleted.
\<close>

theorem records_after_run:
  "(deleteLoadedData n L st = Some (res, st') \<longrightarrow> sobject2records st' = sobject2records st)
   \<and> (loadData n L st = Some (lres, lst') \<longrightarrow>
         length (sobject2records lst' C) = length (sobject2records st C)
       \<and> (\<not> resolving C (steps_since st lst') \<longrightarrow>
            sobject2records lst' C = sobject2records st C)
       \<and> (succeeded (Some (lres, lst')) \<longrightarrow> C \<in> set (sobjects L) \<longrightarrow>
            (\<exists>ids remote resolved.
                ResolveStarted C ids \<in> set (steps_since st lst')
              \<and> updateRecords
                  (\<lambda>soqlFrom. find_records (connection L) remote (dollar L soqlFrom) soqlFrom)
                  (map_of ids) (sobject2records st C) = Inr resolved
              \<and> BeforeCreating C (map (delete_prop ''id'') resolved) \<in> set (steps_since st lst')
              \<and> sobject2records lst' C = map (delete_prop ''id'') resolved)
          \<and> (\<forall>r\<in>set (sobject2records lst' C). ''id'' \<notin> fst ` set r)))"
proof (intro conjI impI)
  assume "deleteLoadedData n L st = Some (res, st')"
  then show "sobject2records st' = sobject2records st" by (rule delete_keeps_records)
next
  assume run: "loadData n L st = Some (lres, lst')"
  show "length (sobject2records lst' C) = length (sobject2records st C)"
    by (rule load_keeps_lengths(1) [OF run])
  {
    assume "\<not> resolving C (steps_since st lst')"
    then show "sobject2records lst' C = sobject2records st C"
      by (rule load_keeps_lengths(2) [OF run])
  }
  assume ok: "succeeded (Some (lres, lst'))" and C: "C \<in> set (sobjects L)"
  from stored_run [OF run ok C] obtain ids remote resolved where s:
    "ResolveStarted C ids \<in> set (steps_since st lst')"
    "BeforeCreating C (sobject2records lst' C) \<in> set (steps_since st lst')"
    "updateRecords (\<lambda>soqlFrom. find_records (connection L) remote (dollar L soqlFrom) soqlFrom)
       (map_of ids) (sobject2records st C) = Inr resolved"
    "sobject2records lst' C = map (delete_prop ''id'') resolved"
    unfolding sent_records_def by blast
  then show "\<exists>ids remote resolved.
        ResolveStarted C ids \<in> set (steps_since st lst')
      \<and> updateRecords
          (\<lambda>soqlFrom. find_records (connection L) remote (dollar L soqlFrom) soqlFrom)
          (map_of ids) (sobject2records st C) = Inr resolved
      \<and> BeforeCreating C (map (delete_prop ''id'') resolved) \<in> set (steps_since st lst')
      \<and> sobject2records lst' C = map (delete_prop ''id'') resolved"
    by (intro exI [of _ ids] exI [of _ remote] exI [of _ resolved]) simp
  from s(4) show "\<forall>r\<in>set (sobject2records lst' C). ''id'' \<notin> fst ` set r"
    using delete_prop_absent by auto
qed

theorem records_after_run_witness:
  "deleteLoadedData 3 ex_loader ex_loaded_state \<noteq> None
   \<and> sobject2records (final_state (deleteLoadedData 3 ex_loader ex_loaded_state))
       = sobject2records ex_loaded_state
   \<and> loadData 3 ex_loader ex_state \<noteq> None
   \<and> succeeded (loadData 3 ex_loader ex_state)
   \<and> ''Child'' \<in> set (sobjects ex_loader)
   \<and> length (sobject2records (final_state (loadData 3 ex_loader ex_state)) ''Child'')
       = length (sobject2records ex_state ''Child'')
   \<and> list_all (\<lambda>r. ''id'' \<notin> fst ` set r)
        (sobject2records (final_state (loadData 3 ex_loader ex_state)) ''Child'')
   \<and> ResolveStarted ''Child'' [(''p1'', ''Parent0'')]
        \<in> set (steps_since ex_state (final_state (loadData 3 ex_loader ex_state)))
   \<and> updateRecords
        (\<lambda>soqlFrom. find_records (connection ex_loader) 1 (dollar ex_loader soqlFrom) soqlFrom)
        (map_of [(''p1'', ''Parent0'')]) (sobject2records ex_state ''Child'')
       = Inr [[(''id'', JStr ''c1''), (''parentRef'', JStr ''Parent0'')]]
   \<and> sobject2records (final_state (loadData 3 ex_loader ex_state)) ''Child''
       = map (delete_prop ''id'') [[(''id'', JStr ''c1''), (''parentRef'', JStr ''Parent0'')]]
   \<and> loadData 3 (ex_failing_loader ''Parent'') ex_state \<noteq> None
   \<and> \<not> resolving ''Child''
         (steps_since ex_state (final_state (loadData 3 (ex_failing_loader ''Parent'') ex_state)))
   \<and> sobject2records ex_state ''Child'' = [[(''id'', JStr ''c1''), (''parentRef'', JStr ''p1'')]]
   \<and> sobject2records (final_state (loadData 3 (ex_failing_loader ''Parent'') ex_state)) ''Child''
       = sobject2records ex_state ''Child''"
proof -
  have d1: "deleteLoadedData 3 ex_loader ex_loaded_state \<noteq> None" by code_simp
  have l1: "loadData 3 ex_loader ex_state \<noteq> None"
    and l2: "succeeded (loadData 3 ex_loader ex_state)"
    and l3: "''Child'' \<in> set (sobjects ex_loader)"
    and l4: "ResolveStarted ''Child'' [(''p1'', ''Parent0'')]
        \<in> set (steps_since ex_state (final_state (loadData 3 ex_loader ex_state)))"
    and l5: "updateRecords
        (\<lambda>soqlFrom. find_records (connection ex_loader) 1 (dollar ex_loader soqlFrom) soqlFrom)
        (map_of [(''p1'', ''Parent0'')]) (sobject2records ex_state ''Child'')
       = Inr [[(''id'', JStr ''c1''), (''parentRef'', JStr ''Parent0'')]]"
    and l6: "sobject2records (final_state (loadData 3 ex_loader ex_state)) ''Child''
       = map (delete_prop ''id'') [[(''id'', JStr ''c1''), (''parentRef'', JStr ''Parent0'')]]"
    by code_simp+
  have f1: "loadData 3 (ex_failing_loader ''Parent'') ex_state \<noteq> None"
    and f2: "\<not> resolving ''Child''
         (steps_since ex_state (final_state (loadData 3 (ex_failing_loader ''Parent'') ex_state)))"
    and f3: "sobject2records ex_state ''Child'' = [[(''id'', JStr ''c1''), (''parentRef'', JStr ''p1'')]]"
    by code_simp+
  have l2': "succeeded (Some (fst (the (loadData 3 ex_loader ex_state)),
               final_state (loadData 3 ex_loader ex_state)))"
    using run_the [OF l1, symmetric] l2 by simp
  from records_after_run [where n = 3 and L = ex_loader and st = ex_loaded_state
      and res = "fst (the (deleteLoadedData 3 ex_loader ex_loaded_state))"
      and st' = "final_state (deleteLoadedData 3 ex_loader ex_loaded_state)"] run_the [OF d1]
  have c1: "sobject2records (final_state (deleteLoadedData 3 ex_loader ex_loaded_state))
       = sobject2records ex_loaded_state"
    by blast
  from records_after_run [where n = 3 and L = ex_loader and st = ex_state
      and lres = "fst (the (loadData 3 ex_loader ex_state))"
      and lst' = "final_state (loadData 3 ex_loader ex_state)" and C = "''Child''"]
    run_the [OF l1] l2' l3
  have c2: "length (sobject2records (final_state (loadData 3 ex_loader ex_state)) ''Child'')
       = length (sobject2records ex_state ''Child'')"
    and c3: "\<forall>r\<in>set (sobject2records (final_state (loadData 3 ex_loader ex_state)) ''Child'').
       ''id'' \<notin> fst ` set r"
    by blast+
  from records_after_run [where n = 3 and L = "ex_failing_loader ''Parent''" and st = ex_state
      and lres = "fst (the (loadData 3 (ex_failing_loader ''Parent'') ex_state))"
      and lst' = "final_state (loadData 3 (ex_failing_loader ''Parent'') ex_state)"
      and C = "''Child''"]
    run_the [OF f1] f2
  have c4: "sobject2records (final_state (loadData 3 (ex_failing_loader ''Parent'') ex_state)) ''Child''
       = sobject2records ex_state ''Child''"
    by blast
  from c3 have c3': "list_all (\<lambda>r. ''id'' \<notin> fst ` set r)
        (sobject2records (final_state (loadData 3 ex_loader ex_state)) ''Child'')"
    by (simp add: list_all_iff)
  from d1 c1 l1 l2 l3 l4 l5 l6 f1 f2 f3 c2 c3' c4 show ?thesis by blast
qed

end
